theory Spec2Isabelle
  imports Main
begin

section \<open>Data model\<close>

text \<open>
  A block colour is a string or \<^verbatim>\<open>null\<close>; \<open>None\<close> stands for \<^verbatim>\<open>null\<close>, the empty
  marker. Coordinates and dimensions are JavaScript numbers holding integers.
\<close>

type_synonym colour = "string option"

type_synonym coord = "int \<times> int"

text \<open>
  \<^verbatim>\<open>blockClicked\<close> destructures \<^verbatim>\<open>{ x, y, colour }\<close> from a block, so a block has
  these three fields. The fields are prefixed here, as \<open>x\<close> and \<open>y\<close> are wanted as
  variable names.
\<close>

record Block =
  block_x :: int
  block_y :: int
  block_colour :: colour

text \<open>The fields of a \<^verbatim>\<open>BlockGrid\<close> object: \<^verbatim>\<open>this.width\<close>, \<^verbatim>\<open>this.height\<close>,
  \<^verbatim>\<open>this.grid\<close> (an array of columns, each an array of blocks).\<close>

record BlockGrid =
  width :: int
  height :: int
  grid :: "Block list list"

text \<open>
  The only exception the grid code can raise: the engine's \<^verbatim>\<open>TypeError\<close> on reading
  or writing a property of \<^verbatim>\<open>undefined\<close>.
\<close>

datatype error = TypeError

text \<open>
  Reading a JavaScript array at an integer index: \<^verbatim>\<open>undefined\<close> (here \<open>None\<close>)
  outside \<^verbatim>\<open>0 .. length - 1\<close>, never an exception.
\<close>

definition js_index :: "'a list \<Rightarrow> int \<Rightarrow> 'a option" where
  "js_index xs i = (if 0 \<le> i \<and> i < int (length xs) then Some (xs ! nat i) else None)"

text \<open>
  The expression \<^verbatim>\<open>this.grid[row][column]\<close>: a \<^verbatim>\<open>TypeError\<close> when
  \<^verbatim>\<open>this.grid[row]\<close> is \<^verbatim>\<open>undefined\<close>, otherwise the block or \<^verbatim>\<open>undefined\<close>.
\<close>

definition slot :: "BlockGrid \<Rightarrow> int \<Rightarrow> int \<Rightarrow> error + Block option" where
  "slot g row column =
     (case js_index (grid g) row of
        None \<Rightarrow> Inl TypeError
      | Some col \<Rightarrow> Inr (js_index col column))"

text \<open>
  The expression \<^verbatim>\<open>this.grid[row][column].colour\<close> read as a value: a further
  \<^verbatim>\<open>TypeError\<close> when the slot is \<^verbatim>\<open>undefined\<close>.
\<close>

definition readColour :: "BlockGrid \<Rightarrow> int \<Rightarrow> int \<Rightarrow> error + colour" where
  "readColour g row column =
     (case slot g row column of
        Inl e \<Rightarrow> Inl e
      | Inr None \<Rightarrow> Inl TypeError
      | Inr (Some b) \<Rightarrow> Inr (block_colour b))"

text \<open>
  The assignment \<^verbatim>\<open>this.grid[row][column].colour = c\<close>: the block object found in the
  slot is mutated in place, so the grid holds the same blocks at the same places and
  only that block's colour differs.
\<close>

definition writeColour :: "BlockGrid \<Rightarrow> int \<Rightarrow> int \<Rightarrow> colour \<Rightarrow> error + BlockGrid" where
  "writeColour g row column c =
     (case slot g row column of
        Inl e \<Rightarrow> Inl e
      | Inr None \<Rightarrow> Inl TypeError
      | Inr (Some b) \<Rightarrow>
          Inr (g\<lparr>grid := (grid g)[nat row :=
                 (grid g ! nat row)[nat column := b\<lparr>block_colour := c\<rparr>]]\<rparr>))"

section \<open>Construction\<close>

text \<open>
  Modelled from the spec: the \<^verbatim>\<open>Block\<close> constructor (\<^verbatim>\<open>Block.js\<close> is imported by
  \<^verbatim>\<open>BlockGrid.js\<close> but is not among the sources). The spec says a cell is identified
  by the pair (x, y) assigned at creation and is initialised to a colour chosen by an
  external colour-assignment policy; the policy is the parameter \<open>policy\<close>.
\<close>

definition newBlock :: "(int \<Rightarrow> int \<Rightarrow> string) \<Rightarrow> int \<Rightarrow> int \<Rightarrow> Block" where
  "newBlock policy i j = \<lparr>block_x = i, block_y = j, block_colour = Some (policy i j)\<rparr>"

text \<open>The inner loop of the constructor:
  \<^verbatim>\<open>for (let y = 0; y < this.height; y++) column.push(new Block(x, y))\<close>.\<close>

function column_loop ::
  "(int \<Rightarrow> int \<Rightarrow> string) \<Rightarrow> int \<Rightarrow> int \<Rightarrow> int \<Rightarrow> Block list \<Rightarrow> Block list" where
  "column_loop policy h i j column =
     (if j < h then column_loop policy h i (j + 1) (column @ [newBlock policy i j])
      else column)"
  by pat_completeness auto
termination
  by (relation "measure (\<lambda>(policy, h, i, j, column). nat (h - j))") auto

declare column_loop.simps [simp del]

text \<open>The outer loop:
  \<^verbatim>\<open>for (let x = 0; x < this.width; x++) { const column = []; ...; this.grid.push(column) }\<close>.\<close>

function grid_loop ::
  "(int \<Rightarrow> int \<Rightarrow> string) \<Rightarrow> int \<Rightarrow> int \<Rightarrow> int \<Rightarrow> Block list list \<Rightarrow> Block list list" where
  "grid_loop policy w h i columns =
     (if i < w then grid_loop policy w h (i + 1) (columns @ [column_loop policy h i 0 []])
      else columns)"
  by pat_completeness auto
termination
  by (relation "measure (\<lambda>(policy, w, h, i, columns). nat (w - i))") auto

declare grid_loop.simps [simp del]

text \<open>\<^verbatim>\<open>constructor(width = 10, height = 10)\<close>: an omitted argument is \<open>None\<close>.\<close>

definition new_BlockGrid ::
  "(int \<Rightarrow> int \<Rightarrow> string) \<Rightarrow> int option \<Rightarrow> int option \<Rightarrow> BlockGrid" where
  "new_BlockGrid policy w_arg h_arg =
     (let w = (case w_arg of None \<Rightarrow> 10 | Some w \<Rightarrow> w);
          h = (case h_arg of None \<Rightarrow> 10 | Some h \<Rightarrow> h)
      in \<lparr>width = w, height = h, grid = grid_loop policy w h 0 []\<rparr>)"

section \<open>Removal of connected blocks\<close>

definition withinBoundaries :: "BlockGrid \<Rightarrow> int \<Rightarrow> int \<Rightarrow> bool" where
  "withinBoundaries g row column =
     (row \<ge> 0 \<and> column \<ge> 0 \<and> row < width g \<and> column < height g)"

definition checkBlockColour :: "BlockGrid \<Rightarrow> int \<Rightarrow> int \<Rightarrow> colour \<Rightarrow> error + bool" where
  "checkBlockColour g row column c =
     (case readColour g row column of Inl e \<Rightarrow> Inl e | Inr c' \<Rightarrow> Inr (c' = c))"

definition removeBlock :: "BlockGrid \<Rightarrow> int \<Rightarrow> int \<Rightarrow> error + BlockGrid" where
  "removeBlock g row column = writeColour g row column None"

lemma writeColour_dims:
  "writeColour g row column c = Inr g' \<Longrightarrow> width g' = width g \<and> height g' = height g"
  by (auto simp: writeColour_def split: sum.splits option.splits)

lemma removeBlock_dims:
  "removeBlock g row column = Inr g' \<Longrightarrow> width g' = width g \<and> height g' = height g"
  by (simp add: removeBlock_def writeColour_dims)

text \<open>The cells inside the boundaries, a finite set.\<close>

definition cells :: "BlockGrid \<Rightarrow> coord set" where
  "cells g = {0..<width g} \<times> {0..<height g}"

lemma finite_cells: "finite (cells g)"
  by (simp add: cells_def)

lemma cells_iff: "(row, column) \<in> cells g \<longleftrightarrow> withinBoundaries g row column"
  by (auto simp: cells_def withinBoundaries_def)

lemma removeBlock_cells: "removeBlock g row column = Inr g' \<Longrightarrow> cells g' = cells g"
  by (simp add: cells_def removeBlock_dims)

lemma card_cells_visit:
  assumes "withinBoundaries g row column" and "(row, column) \<notin> set parsed"
  shows "card (cells g - insert (row, column) (set parsed)) < card (cells g - set parsed)"
proof -
  have "(row, column) \<in> cells g - set parsed"
    using assms by (simp add: cells_iff)
  then have "card (cells g - set parsed - {(row, column)}) < card (cells g - set parsed)"
    by (intro card_Diff1_less) (auto simp: finite_cells)
  moreover have "cells g - insert (row, column) (set parsed)
      = cells g - set parsed - {(row, column)}"
    by auto
  ultimately show ?thesis by simp
qed

text \<open>
  The \<^verbatim>\<open>while\<close> loop of \<^verbatim>\<open>removeConnectedBlocks\<close>, on its local variables:
  \<^item> \<open>adjacentBlocks\<close> is the work stack, the head of the list being the last element
    of the array (the one \<^verbatim>\<open>pop\<close> takes); the four \<^verbatim>\<open>push\<close> calls of one visit,
    in the order of \<^verbatim>\<open>directionsArray\<close>, leave the offset \<^verbatim>\<open>[-1, 0]\<close> on top;
  \<^item> \<open>parsedBlocks\<close> is the \<^verbatim>\<open>Set\<close> of keys, kept as the list of the arguments of
    its \<^verbatim>\<open>add\<close> calls in call order; \<^verbatim>\<open>has\<close> is membership. The key
    \<^verbatim>\<open>`${row},${column}`\<close> of a pair of integers determines the pair, so the pair
    stands for the key;
  \<^item> \<open>removedBlockArray\<close> is the caller's array, \<^verbatim>\<open>push\<close> appending at its end;
  \<^item> \<open>pops\<close> is not in the source: it counts the iterations of the loop so far.
  The result holds the grid, the removed array, the parsed keys and the count when the
  stack has run empty.
\<close>

function rcb_while ::
  "BlockGrid \<Rightarrow> colour \<Rightarrow> coord list \<Rightarrow> coord list \<Rightarrow> coord list \<Rightarrow> nat
     \<Rightarrow> error + (BlockGrid \<times> coord list \<times> coord list \<times> nat)" where
  "rcb_while g c [] parsedBlocks removedBlockArray pops =
     Inr (g, removedBlockArray, parsedBlocks, pops)"
| "rcb_while g c ((row, column) # adjacentBlocks) parsedBlocks removedBlockArray pops =
     (if withinBoundaries g row column \<and> (row, column) \<notin> set parsedBlocks then
        (case checkBlockColour g row column c of
           Inl e \<Rightarrow> Inl e
         | Inr matches \<Rightarrow>
             if matches then
               (case removeBlock g row column of
                  Inl e \<Rightarrow> Inl e
                | Inr g' \<Rightarrow>
                    rcb_while g' c
                      ((row + (-1), column + 0) # (row + 1, column + 0) #
                       (row + 0, column + (-1)) # (row + 0, column + 1) # adjacentBlocks)
                      (parsedBlocks @ [(row, column)])
                      (removedBlockArray @ [(row, column)]) (Suc pops))
             else
               rcb_while g c adjacentBlocks (parsedBlocks @ [(row, column)])
                 removedBlockArray (Suc pops))
      else rcb_while g c adjacentBlocks parsedBlocks removedBlockArray (Suc pops))"
  by pat_completeness auto
termination
proof (relation "measures
    [\<lambda>(g, c, adj, parsed, removed, pops). card (cells g - set parsed),
     \<lambda>(g, c, adj, parsed, removed, pops). length adj]")
qed (auto simp: card_cells_visit dest!: removeBlock_cells)

declare rcb_while.simps(2) [simp del]

text \<open>
  \<^verbatim>\<open>removeConnectedBlocks\<close> returns \<^verbatim>\<open>this\<close>; the caller's array has been filled in
  place, so both are returned.
\<close>

definition removeConnectedBlocks ::
  "BlockGrid \<Rightarrow> int \<Rightarrow> int \<Rightarrow> colour \<Rightarrow> coord list \<Rightarrow> error + (BlockGrid \<times> coord list)" where
  "removeConnectedBlocks g i j c removedBlockArray =
     (case rcb_while g c [(i, j)] [] removedBlockArray 0 of
        Inl e \<Rightarrow> Inl e
      | Inr (g', removed, parsed, pops) \<Rightarrow> Inr (g', removed))"

section \<open>Shifting blocks downward\<close>

text \<open>
  \<^verbatim>\<open>this.grid[x][y].colour === null && this.grid[x][y + 1]\<close>: the right operand is
  evaluated only when the colour is \<^verbatim>\<open>null\<close>, and the \<^verbatim>\<open>while\<close> condition takes
  its truthiness: a block is truthy, \<^verbatim>\<open>undefined\<close> (no slot at \<^verbatim>\<open>y + 1\<close>) is falsy.
\<close>

definition blockBelowIsEmpty :: "BlockGrid \<Rightarrow> int \<Rightarrow> int \<Rightarrow> error + bool" where
  "blockBelowIsEmpty g i j =
     (case readColour g i j of
        Inl e \<Rightarrow> Inl e
      | Inr c \<Rightarrow>
          if c = None then
            (case slot g i (j + 1) of Inl e \<Rightarrow> Inl e | Inr s \<Rightarrow> Inr (s \<noteq> None))
          else Inr False)"

text \<open>
  \<^verbatim>\<open>this.grid[x][y].colour = this.grid[x][y + 1].colour;
  this.grid[x][y + 1].colour = null;\<close>
\<close>

definition moveBlockDown :: "BlockGrid \<Rightarrow> int \<Rightarrow> int \<Rightarrow> error + BlockGrid" where
  "moveBlockDown g i j =
     (case readColour g i (j + 1) of
        Inl e \<Rightarrow> Inl e
      | Inr c \<Rightarrow>
          (case writeColour g i j c of
             Inl e \<Rightarrow> Inl e
           | Inr g' \<Rightarrow> writeColour g' i (j + 1) None))"

lemma writeColour_lengths:
  "writeColour g i j c = Inr g' \<Longrightarrow>
     length (grid g') = length (grid g) \<and> map length (grid g') = map length (grid g)"
  by (auto simp: writeColour_def slot_def js_index_def map_update list_update_same_conv
      split: sum.splits option.splits if_splits)

lemma moveBlockDown_lengths:
  "moveBlockDown g i j = Inr g' \<Longrightarrow> map length (grid g') = map length (grid g)"
  by (auto simp: moveBlockDown_def split: sum.splits dest!: writeColour_lengths)

lemma blockBelowIsEmpty_TrueD:
  "blockBelowIsEmpty g i j = Inr True \<Longrightarrow>
     0 \<le> i \<and> nat i < length (grid g) \<and> 0 \<le> j \<and> nat j + 1 < length (grid g ! nat i)"
  by (auto simp: blockBelowIsEmpty_def readColour_def slot_def js_index_def
      split: sum.splits option.splits if_splits)

text \<open>The inner loop:
  \<^verbatim>\<open>while (this.blockBelowIsEmpty(x, currentRow)) { this.moveBlockDown(x, currentRow); currentRow++; }\<close>.\<close>

function shift_while :: "BlockGrid \<Rightarrow> int \<Rightarrow> int \<Rightarrow> error + BlockGrid" where
  "shift_while g i currentRow =
     (case blockBelowIsEmpty g i currentRow of
        Inl e \<Rightarrow> Inl e
      | Inr isEmpty \<Rightarrow>
          if isEmpty then
            (case moveBlockDown g i currentRow of
               Inl e \<Rightarrow> Inl e
             | Inr g' \<Rightarrow> shift_while g' i (currentRow + 1))
          else Inr g)"
  by pat_completeness auto
termination
proof (relation "measure (\<lambda>(g, i, currentRow). length (grid g ! nat i) - nat currentRow)")
  fix g i currentRow isEmpty g'
  assume e: "blockBelowIsEmpty g i currentRow = Inr isEmpty" "isEmpty"
    and m: "moveBlockDown g i currentRow = Inr g'"
  from e have b: "0 \<le> i" "nat i < length (grid g)" "0 \<le> currentRow"
      "nat currentRow + 1 < length (grid g ! nat i)"
    using blockBelowIsEmpty_TrueD [of g i currentRow] by auto
  from m have "map length (grid g') ! nat i = map length (grid g) ! nat i"
    by (simp add: moveBlockDown_lengths)
  moreover from m have "length (grid g') = length (grid g)"
    using moveBlockDown_lengths [of g i currentRow g'] map_eq_imp_length_eq by blast
  ultimately have "length (grid g' ! nat i) = length (grid g ! nat i)"
    using b by simp
  with b show "((g', i, currentRow + 1), (g, i, currentRow))
      \<in> measure (\<lambda>(g, i, currentRow). length (grid g ! nat i) - nat currentRow)"
    by (simp add: nat_add_distrib) arith
qed simp

declare shift_while.simps [simp del]

text \<open>The loop over the rows of one column, from the top row down:
  \<^verbatim>\<open>for (let yPos = this.height - 1; yPos >= 0; yPos--) { let currentRow = yPos; ... }\<close>.\<close>

function shift_for :: "BlockGrid \<Rightarrow> int \<Rightarrow> int \<Rightarrow> error + BlockGrid" where
  "shift_for g i yPos =
     (if yPos \<ge> 0 then
        (case shift_while g i yPos of
           Inl e \<Rightarrow> Inl e
         | Inr g' \<Rightarrow> shift_for g' i (yPos - 1))
      else Inr g)"
  by pat_completeness auto
termination
  by (relation "measure (\<lambda>(g, i, yPos). nat (yPos + 1))") auto

declare shift_for.simps [simp del]

text \<open>
  \<^verbatim>\<open>removedBlockArray.forEach(([x, y]) => { for ... })\<close>: one pass over column \<^verbatim>\<open>x\<close>
  for every removed coordinate, in the order of the array; \<^verbatim>\<open>y\<close> is not used. The
  method returns \<^verbatim>\<open>this\<close>.
\<close>

fun shiftBlocksDownward :: "BlockGrid \<Rightarrow> coord list \<Rightarrow> error + BlockGrid" where
  "shiftBlocksDownward g [] = Inr g"
| "shiftBlocksDownward g ((i, j) # removedBlockArray) =
     (case shift_for g i (height g - 1) of
        Inl e \<Rightarrow> Inl e
      | Inr g' \<Rightarrow> shiftBlocksDownward g' removedBlockArray)"

section \<open>Resolving a click\<close>

text \<open>
  \<^verbatim>\<open>blockClicked(event, block)\<close>. The calls \<^verbatim>\<open>resetGrid()\<close> and \<^verbatim>\<open>render()\<close> that
  end the chain rebuild the page from the grid and leave \<^verbatim>\<open>this.grid\<close> as it is;
  they are not part of the model. The method returns nothing: the second component
  of the result is the local \<^verbatim>\<open>removedBlockArray\<close> at the end of the call, empty when
  the branch that creates it is not taken.
\<close>

definition blockClicked :: "BlockGrid \<Rightarrow> Block \<Rightarrow> error + (BlockGrid \<times> coord list)" where
  "blockClicked g block =
     (if block_colour block \<noteq> None then
        (case removeConnectedBlocks g (block_x block) (block_y block) (block_colour block) [] of
           Inl e \<Rightarrow> Inl e
         | Inr (g', removedBlockArray) \<Rightarrow>
             (case shiftBlocksDownward g' removedBlockArray of
                Inl e \<Rightarrow> Inl e
              | Inr g'' \<Rightarrow> Inr (g'', removedBlockArray)))
      else Inr (g, []))"

text \<open>
  The block that the click listener installed by \<^verbatim>\<open>render\<close> for the element
  \<^verbatim>\<open>block_${x}x${y}\<close> passes to \<^verbatim>\<open>blockClicked\<close>: the object \<^verbatim>\<open>this.grid[x][y]\<close>,
  with its fields as they are at the time of the click.
\<close>

definition blockAt :: "BlockGrid \<Rightarrow> int \<Rightarrow> int \<Rightarrow> Block option" where
  "blockAt g i j = (case js_index (grid g) i of None \<Rightarrow> None | Some col \<Rightarrow> js_index col j)"

section \<open>The resolver with a log of its indexes into the grid\<close>

text \<open>
  An index into the storage, as the code writes it: \<open>Cell i j\<close> is the expression
  \<^verbatim>\<open>this.grid[i][j].colour\<close>, read or assigned; \<open>Slot i j\<close> is the bare expression
  \<^verbatim>\<open>this.grid[i][j]\<close>, of which only the truthiness is taken.
\<close>

datatype access = Cell int int | Slot int int

text \<open>
  The indexes one call evaluates, in order, when it returns. \<^verbatim>\<open>checkBlockColour\<close> and
  \<^verbatim>\<open>removeBlock\<close> index the one cell they are given. \<^verbatim>\<open>blockBelowIsEmpty\<close> reads
  the colour at \<^verbatim>\<open>[x][y]\<close> and, when it is \<^verbatim>\<open>null\<close>, evaluates the slot
  \<^verbatim>\<open>[x][y + 1]\<close>. \<^verbatim>\<open>moveBlockDown\<close> takes the reference \<^verbatim>\<open>[x][y].colour\<close>, reads
  \<^verbatim>\<open>[x][y + 1].colour\<close>, assigns, and then assigns \<^verbatim>\<open>[x][y + 1].colour\<close>.
\<close>

definition checkBlockColour_accesses :: "int \<Rightarrow> int \<Rightarrow> access list" where
  "checkBlockColour_accesses row column = [Cell row column]"

definition removeBlock_accesses :: "int \<Rightarrow> int \<Rightarrow> access list" where
  "removeBlock_accesses row column = [Cell row column]"

definition blockBelowIsEmpty_accesses :: "BlockGrid \<Rightarrow> int \<Rightarrow> int \<Rightarrow> access list" where
  "blockBelowIsEmpty_accesses g i j =
     Cell i j # (if readColour g i j = Inr None then [Slot i (j + 1)] else [])"

definition moveBlockDown_accesses :: "int \<Rightarrow> int \<Rightarrow> access list" where
  "moveBlockDown_accesses i j = [Cell i j, Cell i (j + 1), Cell i (j + 1)]"

text \<open>
  The loops and methods once more, each with the log of the indexes evaluated so far
  as one more argument and one more result; nothing else differs from the
  definitions above, and the results are proved to be the same.
\<close>

function rcb_while_traced ::
  "BlockGrid \<Rightarrow> colour \<Rightarrow> coord list \<Rightarrow> coord list \<Rightarrow> coord list \<Rightarrow> nat \<Rightarrow> access list
     \<Rightarrow> error + ((BlockGrid \<times> coord list \<times> coord list \<times> nat) \<times> access list)" where
  "rcb_while_traced g c [] parsedBlocks removedBlockArray pops tr =
     Inr ((g, removedBlockArray, parsedBlocks, pops), tr)"
| "rcb_while_traced g c ((row, column) # adjacentBlocks) parsedBlocks removedBlockArray pops tr =
     (if withinBoundaries g row column \<and> (row, column) \<notin> set parsedBlocks then
        (case checkBlockColour g row column c of
           Inl e \<Rightarrow> Inl e
         | Inr matches \<Rightarrow>
             if matches then
               (case removeBlock g row column of
                  Inl e \<Rightarrow> Inl e
                | Inr g' \<Rightarrow>
                    rcb_while_traced g' c
                      ((row + (-1), column + 0) # (row + 1, column + 0) #
                       (row + 0, column + (-1)) # (row + 0, column + 1) # adjacentBlocks)
                      (parsedBlocks @ [(row, column)])
                      (removedBlockArray @ [(row, column)]) (Suc pops)
                      (tr @ checkBlockColour_accesses row column @ removeBlock_accesses row column))
             else
               rcb_while_traced g c adjacentBlocks (parsedBlocks @ [(row, column)])
                 removedBlockArray (Suc pops) (tr @ checkBlockColour_accesses row column))
      else rcb_while_traced g c adjacentBlocks parsedBlocks removedBlockArray (Suc pops) tr)"
  by pat_completeness auto
termination
proof (relation "measures
    [\<lambda>(g, c, adj, parsed, removed, pops, tr). card (cells g - set parsed),
     \<lambda>(g, c, adj, parsed, removed, pops, tr). length adj]")
qed (auto simp: card_cells_visit dest!: removeBlock_cells)

declare rcb_while_traced.simps(2) [simp del]

definition removeConnectedBlocks_traced ::
  "BlockGrid \<Rightarrow> int \<Rightarrow> int \<Rightarrow> colour \<Rightarrow> coord list
     \<Rightarrow> error + ((BlockGrid \<times> coord list) \<times> access list)" where
  "removeConnectedBlocks_traced g i j c removedBlockArray =
     (case rcb_while_traced g c [(i, j)] [] removedBlockArray 0 [] of
        Inl e \<Rightarrow> Inl e
      | Inr ((g', removed, parsed, pops), tr) \<Rightarrow> Inr ((g', removed), tr))"

function shift_while_traced ::
  "BlockGrid \<Rightarrow> int \<Rightarrow> int \<Rightarrow> access list \<Rightarrow> error + (BlockGrid \<times> access list)" where
  "shift_while_traced g i currentRow tr =
     (case blockBelowIsEmpty g i currentRow of
        Inl e \<Rightarrow> Inl e
      | Inr isEmpty \<Rightarrow>
          if isEmpty then
            (case moveBlockDown g i currentRow of
               Inl e \<Rightarrow> Inl e
             | Inr g' \<Rightarrow>
                 shift_while_traced g' i (currentRow + 1)
                   (tr @ blockBelowIsEmpty_accesses g i currentRow
                       @ moveBlockDown_accesses i currentRow))
          else Inr (g, tr @ blockBelowIsEmpty_accesses g i currentRow))"
  by pat_completeness auto
termination
proof (relation "measure (\<lambda>(g, i, currentRow, tr). length (grid g ! nat i) - nat currentRow)")
  fix g i currentRow isEmpty g' and tr :: "access list"
  assume e: "blockBelowIsEmpty g i currentRow = Inr isEmpty" "isEmpty"
    and m: "moveBlockDown g i currentRow = Inr g'"
  from e have b: "0 \<le> i" "nat i < length (grid g)" "0 \<le> currentRow"
      "nat currentRow + 1 < length (grid g ! nat i)"
    using blockBelowIsEmpty_TrueD [of g i currentRow] by auto
  from m have "map length (grid g') ! nat i = map length (grid g) ! nat i"
    by (simp add: moveBlockDown_lengths)
  moreover from m have "length (grid g') = length (grid g)"
    using moveBlockDown_lengths [of g i currentRow g'] map_eq_imp_length_eq by blast
  ultimately have "length (grid g' ! nat i) = length (grid g ! nat i)"
    using b by simp
  with b show "((g', i, currentRow + 1,
        tr @ blockBelowIsEmpty_accesses g i currentRow @ moveBlockDown_accesses i currentRow),
      (g, i, currentRow, tr))
      \<in> measure (\<lambda>(g, i, currentRow, tr). length (grid g ! nat i) - nat currentRow)"
    by (simp add: nat_add_distrib) arith
qed simp

declare shift_while_traced.simps [simp del]

function shift_for_traced ::
  "BlockGrid \<Rightarrow> int \<Rightarrow> int \<Rightarrow> access list \<Rightarrow> error + (BlockGrid \<times> access list)" where
  "shift_for_traced g i yPos tr =
     (if yPos \<ge> 0 then
        (case shift_while_traced g i yPos tr of
           Inl e \<Rightarrow> Inl e
         | Inr (g', tr') \<Rightarrow> shift_for_traced g' i (yPos - 1) tr')
      else Inr (g, tr))"
  by pat_completeness auto
termination
  by (relation "measure (\<lambda>(g, i, yPos, tr). nat (yPos + 1))") auto

declare shift_for_traced.simps [simp del]

fun shiftBlocksDownward_traced ::
  "BlockGrid \<Rightarrow> coord list \<Rightarrow> access list \<Rightarrow> error + (BlockGrid \<times> access list)" where
  "shiftBlocksDownward_traced g [] tr = Inr (g, tr)"
| "shiftBlocksDownward_traced g ((i, j) # removedBlockArray) tr =
     (case shift_for_traced g i (height g - 1) tr of
        Inl e \<Rightarrow> Inl e
      | Inr (g', tr') \<Rightarrow> shiftBlocksDownward_traced g' removedBlockArray tr')"

definition blockClicked_traced ::
  "BlockGrid \<Rightarrow> Block \<Rightarrow> error + ((BlockGrid \<times> coord list) \<times> access list)" where
  "blockClicked_traced g block =
     (if block_colour block \<noteq> None then
        (case removeConnectedBlocks_traced g (block_x block) (block_y block)
                (block_colour block) [] of
           Inl e \<Rightarrow> Inl e
         | Inr ((g', removedBlockArray), tr) \<Rightarrow>
             (case shiftBlocksDownward_traced g' removedBlockArray tr of
                Inl e \<Rightarrow> Inl e
              | Inr (g'', tr') \<Rightarrow> Inr ((g'', removedBlockArray), tr')))
      else Inr ((g, []), []))"

text \<open>
  The log of a run and its result without the log.
\<close>

fun trace_of :: "error + ('a \<times> access list) \<Rightarrow> access list" where
  "trace_of (Inl e) = []"
| "trace_of (Inr (r, tr)) = tr"

fun untraced :: "error + ('a \<times> access list) \<Rightarrow> error + 'a" where
  "untraced (Inl e) = Inl e"
| "untraced (Inr (r, tr)) = Inr r"

section \<open>Notions used to state the properties\<close>

text \<open>
  The grids the constructor builds, whatever their colours: \<^verbatim>\<open>width\<close> columns of
  \<^verbatim>\<open>height\<close> blocks, the block at \<^verbatim>\<open>grid[i][j]\<close> carrying the coordinates
  \<open>(i, j)\<close>. No method changes anything but colours, so this is the state space
  of the game.
\<close>

definition well_formed :: "BlockGrid \<Rightarrow> bool" where
  "well_formed g =
     (map (map (\<lambda>b. (block_x b, block_y b))) (grid g)
        = map (\<lambda>i. map (\<lambda>j. (i, j)) [0..height g - 1]) [0..width g - 1])"

text \<open>
  The coordinates stored in the blocks, place by place; together with the two
  dimensions this is everything of a grid but its colours.
\<close>

definition coords :: "BlockGrid \<Rightarrow> (int \<times> int) list list" where
  "coords g = map (map (\<lambda>b. (block_x b, block_y b))) (grid g)"

definition same_frame :: "BlockGrid \<Rightarrow> BlockGrid \<Rightarrow> bool" where
  "same_frame g' g \<longleftrightarrow> coords g' = coords g \<and> width g' = width g \<and> height g' = height g"

text \<open>
  The colour of the cell at a coordinate: \<open>None\<close> when there is no such cell,
  \<open>Some None\<close> for a cell holding \<^verbatim>\<open>null\<close>, \<open>Some (Some s)\<close> for a cell of colour
  \<open>s\<close>. \<open>column_of g i\<close> lists the colours of column \<open>i\<close> from row 0 (the bottom row)
  upward.
\<close>

definition colourAt :: "BlockGrid \<Rightarrow> coord \<Rightarrow> colour option" where
  "colourAt g p = map_option block_colour (blockAt g (fst p) (snd p))"

definition column_of :: "BlockGrid \<Rightarrow> int \<Rightarrow> colour list" where
  "column_of g i = (case js_index (grid g) i of None \<Rightarrow> [] | Some col \<Rightarrow> map block_colour col)"

definition colours :: "BlockGrid \<Rightarrow> colour list list" where
  "colours g = map (map block_colour) (grid g)"

text \<open>
  Orthogonal neighbours are the coordinates at distance one. The connected component
  of colour \<open>c\<close> containing \<open>seed\<close>: the cells reached from the seed through
  orthogonal steps, every cell on the way (the seed included) holding \<open>c\<close>.
\<close>

definition adjacent :: "coord \<Rightarrow> coord \<Rightarrow> bool" where
  "adjacent p q = (\<bar>fst p - fst q\<bar> + \<bar>snd p - snd q\<bar> = 1)"

inductive_set component :: "BlockGrid \<Rightarrow> colour \<Rightarrow> coord \<Rightarrow> coord set"
  for g :: BlockGrid and c :: colour and seed :: coord where
  seed: "colourAt g seed = Some c \<Longrightarrow> seed \<in> component g c seed"
| step: "p \<in> component g c seed \<Longrightarrow> adjacent p q \<Longrightarrow> colourAt g q = Some c
         \<Longrightarrow> q \<in> component g c seed"

text \<open>
  Two readings of where the resolver may index the storage. \<open>access_inside\<close>: every
  index, of whatever kind, lies inside the boundaries. \<open>access_ok\<close>: every colour
  read or written is that of a cell inside the boundaries, and a bare slot is looked
  up in a column of the grid at a row from 1 to \<^verbatim>\<open>height\<close>, the last being one above
  the top row.
\<close>

fun access_inside :: "BlockGrid \<Rightarrow> access \<Rightarrow> bool" where
  "access_inside g (Cell i j) = withinBoundaries g i j"
| "access_inside g (Slot i j) = withinBoundaries g i j"

fun access_ok :: "BlockGrid \<Rightarrow> access \<Rightarrow> bool" where
  "access_ok g (Cell i j) = withinBoundaries g i j"
| "access_ok g (Slot i j) = (0 \<le> i \<and> i < width g \<and> 1 \<le> j \<and> j \<le> height g)"

text \<open>
  The coordinates one visit pushes on the stack, as a list (the offsets of
  \<^verbatim>\<open>directionsArray\<close>).
\<close>

definition neighbours :: "coord \<Rightarrow> coord list" where
  "neighbours p = [(fst p - 1, snd p), (fst p + 1, snd p), (fst p, snd p - 1), (fst p, snd p + 1)]"

text \<open>
  A column under gravity: the colours that are not \<^verbatim>\<open>null\<close> keep their order from
  the bottom, and all the \<^verbatim>\<open>null\<close>s follow on top.
\<close>

definition settle :: "colour list \<Rightarrow> colour list" where
  "settle cs = filter (\<lambda>c. c \<noteq> None) cs @ replicate (length (filter (\<lambda>c. c = None) cs)) None"

text \<open>
  What the loops of \<^verbatim>\<open>shiftBlocksDownward\<close> do to the colours of one column:
  \<open>drop_gap cs k\<close> is one run of the inner loop started at row \<open>k\<close>, \<open>sweep cs m\<close>
  the runs for the rows \<open>m - 1\<close> down to \<open>0\<close>, and \<open>settle_columns A\<close> settles the
  columns whose index is in \<open>A\<close>.
\<close>

definition drop_gap :: "colour list \<Rightarrow> nat \<Rightarrow> colour list" where
  "drop_gap cs k = (if cs ! k = None then take k cs @ drop (Suc k) cs @ [None] else cs)"

fun sweep :: "colour list \<Rightarrow> nat \<Rightarrow> colour list" where
  "sweep cs 0 = cs"
| "sweep cs (Suc m) = sweep (drop_gap cs m) m"

definition settle_columns :: "int set \<Rightarrow> colour list list \<Rightarrow> colour list list" where
  "settle_columns A cols =
     map (\<lambda>k. if int k \<in> A then settle (cols ! k) else cols ! k) [0..<length cols]"

text \<open>
  Two invariants of the loop of \<^verbatim>\<open>removeConnectedBlocks\<close>, \<open>g0\<close> being the grid at
  its start. The first bounds the work: parsed keys are distinct cells of the grid,
  removed coordinates are parsed, and every iteration so far has consumed one of the
  pushes (one for the seed, four for each removal). The second says what has been
  removed: cells of the seed's component only, each with its neighbours of colour
  \<open>c\<close> either parsed or still on the stack.
\<close>

definition count_inv :: "BlockGrid \<Rightarrow> BlockGrid \<Rightarrow> coord list \<Rightarrow> coord list \<Rightarrow> coord list \<Rightarrow> nat \<Rightarrow> bool" where
  "count_inv g0 g adj parsed removed n \<longleftrightarrow>
     well_formed g \<and> width g = width g0 \<and> height g = height g0 \<and> coords g = coords g0 \<and>
     distinct parsed \<and> set parsed \<subseteq> cells g0 \<and>
     distinct removed \<and> set removed \<subseteq> set parsed \<and>
     n + length adj = 1 + 4 * length removed"

definition fill_inv ::
  "BlockGrid \<Rightarrow> colour \<Rightarrow> coord \<Rightarrow> BlockGrid \<Rightarrow> coord list \<Rightarrow> coord list \<Rightarrow> coord list \<Rightarrow> bool" where
  "fill_inv g0 c seed g adj parsed removed \<longleftrightarrow>
     well_formed g \<and> width g = width g0 \<and> height g = height g0 \<and>
     (\<forall>q. colourAt g q = (if q \<in> set removed then Some None else colourAt g0 q)) \<and>
     distinct removed \<and>
     set removed \<subseteq> set parsed \<and>
     set removed \<subseteq> component g0 c seed \<and>
     (\<forall>p \<in> set parsed. colourAt g0 p = Some c \<longrightarrow> p \<in> set removed) \<and>
     (\<forall>q \<in> set adj. q = seed \<or> (\<exists>p \<in> set removed. adjacent p q)) \<and>
     seed \<in> set adj \<union> set parsed \<and>
     (\<forall>p \<in> set removed. \<forall>q. adjacent p q \<longrightarrow> colourAt g0 q = Some c
         \<longrightarrow> q \<in> set adj \<union> set parsed)"

section \<open>Example grids\<close>

text \<open>
  A grid of two columns and three rows, the same grid after the removal started at
  \<open>(0, 0)\<close>, and after the columns have settled; a grid of a single cell; and a
  colour policy for the constructor.
\<close>

definition demo_grid :: BlockGrid where
  "demo_grid = \<lparr>width = 2, height = 3, grid =
     [[\<lparr>block_x = 0, block_y = 0, block_colour = Some ''red''\<rparr>,
       \<lparr>block_x = 0, block_y = 1, block_colour = Some ''red''\<rparr>,
       \<lparr>block_x = 0, block_y = 2, block_colour = Some ''green''\<rparr>],
      [\<lparr>block_x = 1, block_y = 0, block_colour = Some ''red''\<rparr>,
       \<lparr>block_x = 1, block_y = 1, block_colour = Some ''blue''\<rparr>,
       \<lparr>block_x = 1, block_y = 2, block_colour = Some ''red''\<rparr>]]\<rparr>"

definition demo_removed :: BlockGrid where
  "demo_removed = \<lparr>width = 2, height = 3, grid =
     [[\<lparr>block_x = 0, block_y = 0, block_colour = None\<rparr>,
       \<lparr>block_x = 0, block_y = 1, block_colour = None\<rparr>,
       \<lparr>block_x = 0, block_y = 2, block_colour = Some ''green''\<rparr>],
      [\<lparr>block_x = 1, block_y = 0, block_colour = None\<rparr>,
       \<lparr>block_x = 1, block_y = 1, block_colour = Some ''blue''\<rparr>,
       \<lparr>block_x = 1, block_y = 2, block_colour = Some ''red''\<rparr>]]\<rparr>"

definition demo_settled :: BlockGrid where
  "demo_settled = \<lparr>width = 2, height = 3, grid =
     [[\<lparr>block_x = 0, block_y = 0, block_colour = Some ''green''\<rparr>,
       \<lparr>block_x = 0, block_y = 1, block_colour = None\<rparr>,
       \<lparr>block_x = 0, block_y = 2, block_colour = None\<rparr>],
      [\<lparr>block_x = 1, block_y = 0, block_colour = Some ''blue''\<rparr>,
       \<lparr>block_x = 1, block_y = 1, block_colour = Some ''red''\<rparr>,
       \<lparr>block_x = 1, block_y = 2, block_colour = None\<rparr>]]\<rparr>"

definition single_grid :: "colour \<Rightarrow> BlockGrid" where
  "single_grid c = \<lparr>width = 1, height = 1, grid = [[\<lparr>block_x = 0, block_y = 0, block_colour = c\<rparr>]]\<rparr>"

text \<open>
  The log of the click on the cell \<open>(0, 0)\<close> of the example grid.
\<close>

definition demo_accesses :: "access list" where
  "demo_accesses =
     [Cell 0 0, Cell 0 0, Cell 1 0, Cell 1 0, Cell 1 1, Cell 0 1, Cell 0 1,
      Cell 0 2, Cell 0 2, Cell 0 1, Slot 0 2, Cell 0 1, Cell 0 2, Cell 0 2,
      Cell 0 2, Slot 0 3, Cell 0 0, Slot 0 1, Cell 0 0, Cell 0 1, Cell 0 1,
      Cell 0 1, Slot 0 2, Cell 0 1, Cell 0 2, Cell 0 2, Cell 0 2, Slot 0 3,
      Cell 1 2, Cell 1 1, Cell 1 0, Slot 1 1, Cell 1 0, Cell 1 1, Cell 1 1,
      Cell 1 1, Slot 1 2, Cell 1 1, Cell 1 2, Cell 1 2, Cell 1 2, Slot 1 3,
      Cell 0 2, Slot 0 3, Cell 0 1, Slot 0 2, Cell 0 1, Cell 0 2, Cell 0 2,
      Cell 0 2, Slot 0 3, Cell 0 0]"

definition uniform :: "int \<Rightarrow> int \<Rightarrow> string" where
  "uniform i j = ''red''"

section \<open>Cells of a well-formed grid\<close>

lemma wf_length: "well_formed g \<Longrightarrow> length (grid g) = nat (width g)"
  unfolding well_formed_def by (drule arg_cong [where f = length]) simp

lemma wf_column:
  assumes "well_formed g" and "k < nat (width g)"
  shows "map (\<lambda>b. (block_x b, block_y b)) (grid g ! k) = map (\<lambda>j. (int k, j)) [0..height g - 1]"
proof -
  from assms have "map (map (\<lambda>b. (block_x b, block_y b))) (grid g) ! k
    = map (\<lambda>i. map (\<lambda>j. (i, j)) [0..height g - 1]) [0..width g - 1] ! k"
    by (simp add: well_formed_def)
  with assms show ?thesis by (simp add: wf_length nth_upto)
qed

lemma wf_column_length:
  assumes "well_formed g" and "k < nat (width g)"
  shows "length (grid g ! k) = nat (height g)"
  using wf_column [OF assms, THEN arg_cong, where f = length] by simp

lemma wf_block:
  assumes "well_formed g" and "k < nat (width g)" and "l < nat (height g)"
  shows "block_x (grid g ! k ! l) = int k \<and> block_y (grid g ! k ! l) = int l"
proof -
  have "map (\<lambda>b. (block_x b, block_y b)) (grid g ! k) ! l = map (\<lambda>j. (int k, j)) [0..height g - 1] ! l"
    using wf_column [OF assms(1,2)] by simp
  with assms show ?thesis by (simp add: wf_column_length nth_upto)
qed

lemma js_index_Some_iff:
  "js_index xs i = Some v \<longleftrightarrow> 0 \<le> i \<and> nat i < length xs \<and> v = xs ! nat i"
  by (auto simp: js_index_def)

lemma js_index_None_iff:
  "js_index xs i = None \<longleftrightarrow> \<not> (0 \<le> i \<and> nat i < length xs)"
  by (auto simp: js_index_def)

lemma blockAt_Some_iff:
  "blockAt g i j = Some b \<longleftrightarrow>
     0 \<le> i \<and> nat i < length (grid g) \<and> 0 \<le> j \<and> nat j < length (grid g ! nat i)
     \<and> b = grid g ! nat i ! nat j"
  by (auto simp: blockAt_def js_index_Some_iff js_index_None_iff split: option.splits)

lemma blockAt_None_iff:
  "blockAt g i j = None \<longleftrightarrow>
     \<not> (0 \<le> i \<and> nat i < length (grid g) \<and> 0 \<le> j \<and> nat j < length (grid g ! nat i))"
  by (auto simp: blockAt_def js_index_Some_iff js_index_None_iff split: option.splits)

lemma blockAt_within:
  assumes "well_formed g" and "withinBoundaries g i j"
  shows "blockAt g i j = Some (grid g ! nat i ! nat j)"
  using assms
  by (auto simp: blockAt_Some_iff withinBoundaries_def wf_length wf_column_length)

lemma blockAt_outside:
  assumes "well_formed g" and "\<not> withinBoundaries g i j"
  shows "blockAt g i j = None"
  using assms
  by (auto simp: blockAt_None_iff withinBoundaries_def wf_length wf_column_length)

lemma readColour_blockAt:
  "readColour g i j = (case blockAt g i j of None \<Rightarrow> Inl TypeError | Some b \<Rightarrow> Inr (block_colour b))"
  by (auto simp: readColour_def slot_def blockAt_def split: option.splits)

lemma writeColour_blockAt:
  "writeColour g i j c = (case blockAt g i j of None \<Rightarrow> Inl TypeError
     | Some b \<Rightarrow> Inr (g\<lparr>grid := (grid g)[nat i := (grid g ! nat i)[nat j := b\<lparr>block_colour := c\<rparr>]]\<rparr>))"
  by (auto simp: writeColour_def slot_def blockAt_def split: option.splits)

lemma map_update_same:
  "k < length xs \<Longrightarrow> f y = f (xs ! k) \<Longrightarrow> map f (xs[k := y]) = map f xs"
  by (simp add: map_update list_update_same_conv)

lemma writeColour_coords:
  assumes "writeColour g i j c = Inr g'"
  shows "coords g' = coords g"
proof -
  from assms obtain b where b: "blockAt g i j = Some b"
    and g': "g' = g\<lparr>grid := (grid g)[nat i := (grid g ! nat i)[nat j := b\<lparr>block_colour := c\<rparr>]]\<rparr>"
    by (auto simp: writeColour_blockAt split: option.splits)
  from b have r: "nat i < length (grid g)" "nat j < length (grid g ! nat i)"
      "b = grid g ! nat i ! nat j"
    by (auto simp: blockAt_Some_iff)
  let ?f = "\<lambda>b. (block_x b, block_y b)"
  have "map ?f ((grid g ! nat i)[nat j := b\<lparr>block_colour := c\<rparr>]) = map ?f (grid g ! nat i)"
    using r by (intro map_update_same) simp_all
  then have "map (map ?f) ((grid g)[nat i := (grid g ! nat i)[nat j := b\<lparr>block_colour := c\<rparr>]])
      = map (map ?f) (grid g)"
    using r by (intro map_update_same) simp_all
  then show ?thesis by (simp add: coords_def g')
qed

lemma writeColour_blockAt_after:
  assumes "writeColour g i j c = Inr g'"
  shows "blockAt g' i' j' =
    (if i' = i \<and> j' = j then map_option (\<lambda>b. b\<lparr>block_colour := c\<rparr>) (blockAt g i j)
     else blockAt g i' j')"
proof -
  from assms obtain b where b: "blockAt g i j = Some b"
    and g': "grid g' = (grid g)[nat i := (grid g ! nat i)[nat j := b\<lparr>block_colour := c\<rparr>]]"
    by (auto simp: writeColour_blockAt split: option.splits)
  from b have r: "0 \<le> i" "0 \<le> j" "nat i < length (grid g)" "nat j < length (grid g ! nat i)"
    "b = grid g ! nat i ! nat j"
    by (auto simp: blockAt_Some_iff)
  let ?col = "(grid g ! nat i)[nat j := b\<lparr>block_colour := c\<rparr>]"
  show ?thesis
  proof (cases "0 \<le> i' \<and> nat i' < length (grid g)")
    case False
    then have "blockAt g' i' j' = None" "blockAt g i' j' = None"
      by (auto simp: blockAt_None_iff g')
    moreover from False r have "i' \<noteq> i" by auto
    ultimately show ?thesis by simp
  next
    case True
    show ?thesis
    proof (cases "i' = i")
      case False
      with True r have ne: "nat i' \<noteq> nat i" by arith
      then have "grid g' ! nat i' = grid g ! nat i'"
        by (simp add: g')
      then have "blockAt g' i' j' = blockAt g i' j'"
        by (simp add: blockAt_def js_index_def g')
      with False show ?thesis by simp
    next
      case i: True
      have col: "grid g' ! nat i = ?col"
        using r by (simp add: g')
      show ?thesis
      proof (cases "0 \<le> j' \<and> nat j' < length (grid g ! nat i)")
        case False
        then have "blockAt g' i' j' = None" "blockAt g i' j' = None"
          using i col by (auto simp: blockAt_None_iff)
        moreover from False r have "j' \<noteq> j" by auto
        ultimately show ?thesis by simp
      next
        case j: True
        show ?thesis
        proof (cases "j' = j")
          case True
          have "blockAt g' i j = Some (?col ! nat j)"
            using r col by (simp add: blockAt_Some_iff g')
          then show ?thesis using r i True b by simp
        next
          case False
          with j r have "nat j' \<noteq> nat j" by arith
          then have "?col ! nat j' = grid g ! nat i ! nat j'" by simp
          moreover have "blockAt g' i j' = Some (?col ! nat j')"
            using r col j by (simp add: blockAt_Some_iff g')
          moreover have "blockAt g i j' = Some (grid g ! nat i ! nat j')"
            using r j by (simp add: blockAt_Some_iff)
          ultimately show ?thesis using i False by simp
        qed
      qed
    qed
  qed
qed

lemma well_formed_coords:
  "well_formed g \<longleftrightarrow>
     coords g = map (\<lambda>i. map (\<lambda>j. (i, j)) [0..height g - 1]) [0..width g - 1]"
  by (simp add: well_formed_def coords_def)

lemma writeColour_wf:
  "writeColour g i j c = Inr g' \<Longrightarrow> well_formed g \<Longrightarrow> well_formed g'"
  by (simp add: well_formed_coords writeColour_coords writeColour_dims)

lemma readColour_colourAt:
  "readColour g i j = (case colourAt g (i, j) of None \<Rightarrow> Inl TypeError | Some c \<Rightarrow> Inr c)"
  by (simp add: readColour_blockAt colourAt_def split: option.splits)

lemma writeColour_colourAt:
  assumes "writeColour g i j c = Inr g'"
  shows "colourAt g' q = (if q = (i, j) then Some c else colourAt g q)"
proof -
  from assms obtain b where "blockAt g i j = Some b"
    by (auto simp: writeColour_blockAt split: option.splits)
  then show ?thesis
    using writeColour_blockAt_after [OF assms, of "fst q" "snd q"]
    by (cases q) (simp add: colourAt_def)
qed

lemma writeColour_defined:
  "colourAt g (i, j) \<noteq> None \<Longrightarrow> \<exists>g'. writeColour g i j c = Inr g'"
  by (auto simp: colourAt_def writeColour_blockAt split: option.splits)

lemma writeColour_undefined:
  "colourAt g (i, j) = None \<Longrightarrow> writeColour g i j c = Inl TypeError"
  by (auto simp: colourAt_def writeColour_blockAt split: option.splits)

lemma colourAt_defined_iff:
  "well_formed g \<Longrightarrow> colourAt g (i, j) \<noteq> None \<longleftrightarrow> withinBoundaries g i j"
  using blockAt_within [of g i j] blockAt_outside [of g i j]
  by (cases "withinBoundaries g i j") (simp_all add: colourAt_def)

lemma checkBlockColour_colourAt:
  "checkBlockColour g i j c =
     (case colourAt g (i, j) of None \<Rightarrow> Inl TypeError | Some c' \<Rightarrow> Inr (c' = c))"
  by (simp add: checkBlockColour_def readColour_colourAt split: option.splits)

section \<open>An invariant rule for the traversal loop\<close>

lemma rcb_while_rule:
  assumes init: "I g adj parsed removed n"
    and wf: "\<And>g adj parsed removed n. I g adj parsed removed n \<Longrightarrow> well_formed g"
    and discard: "\<And>g p adj parsed removed n.
        I g (p # adj) parsed removed n \<Longrightarrow>
        \<not> withinBoundaries g (fst p) (snd p) \<or> p \<in> set parsed \<Longrightarrow>
        I g adj parsed removed (Suc n)"
    and skip: "\<And>g p adj parsed removed n c'.
        I g (p # adj) parsed removed n \<Longrightarrow>
        withinBoundaries g (fst p) (snd p) \<Longrightarrow> p \<notin> set parsed \<Longrightarrow>
        colourAt g p = Some c' \<Longrightarrow> c' \<noteq> c \<Longrightarrow>
        I g adj (parsed @ [p]) removed (Suc n)"
    and remove: "\<And>g p adj parsed removed n g'.
        I g (p # adj) parsed removed n \<Longrightarrow>
        withinBoundaries g (fst p) (snd p) \<Longrightarrow> p \<notin> set parsed \<Longrightarrow>
        colourAt g p = Some c \<Longrightarrow>
        removeBlock g (fst p) (snd p) = Inr g' \<Longrightarrow>
        I g' (neighbours p @ adj) (parsed @ [p]) (removed @ [p]) (Suc n)"
  shows "\<exists>g' removed' parsed' n'.
      rcb_while g c adj parsed removed n = Inr (g', removed', parsed', n')
      \<and> I g' [] parsed' removed' n'"
proof -
  have "\<exists>g' removed' parsed' n'.
      rcb_while g k adj parsed removed n = Inr (g', removed', parsed', n')
      \<and> I g' [] parsed' removed' n'" if "k = c" and "I g adj parsed removed n" for k
    using that
  proof (induction g k adj parsed removed n rule: rcb_while.induct)
    case (1 g k parsed removed n)
    then show ?case by simp
  next
    case (2 g k row column adj parsed removed n)
    note I = \<open>I g ((row, column) # adj) parsed removed n\<close>
    note k = \<open>k = c\<close>
    show ?case
    proof (cases "withinBoundaries g row column \<and> (row, column) \<notin> set parsed")
      case False
      have "I g adj parsed removed (Suc n)"
        by (rule discard [OF I]) (use False in auto)
      moreover have "rcb_while g k ((row, column) # adj) parsed removed n
          = rcb_while g k adj parsed removed (Suc n)"
        using False by (subst rcb_while.simps(2)) auto
      ultimately show ?thesis using "2.IH"(3) [OF False k] by simp
    next
      case True
      then obtain c' where c': "colourAt g (row, column) = Some c'"
        using colourAt_defined_iff [OF wf [OF I], of row column] by auto
      then have chk: "checkBlockColour g row column k = Inr (c' = k)"
        by (simp add: checkBlockColour_colourAt)
      show ?thesis
      proof (cases "c' = k")
        case False
        have "I g adj (parsed @ [(row, column)]) removed (Suc n)"
          by (rule skip [OF I, where c' = c']) (use True c' False k in auto)
        moreover have "rcb_while g k ((row, column) # adj) parsed removed n
            = rcb_while g k adj (parsed @ [(row, column)]) removed (Suc n)"
          using False True chk by (subst rcb_while.simps(2)) simp
        ultimately show ?thesis using "2.IH"(2) [OF True chk _ k] False by simp
      next
        case eq: True
        obtain g' where g': "removeBlock g row column = Inr g'"
          using writeColour_defined [of g row column None] c' by (auto simp: removeBlock_def)
        have "I g' (neighbours (row, column) @ adj) (parsed @ [(row, column)])
            (removed @ [(row, column)]) (Suc n)"
          by (rule remove [OF I]) (use True c' eq g' k in auto)
        then have "I g' ((row + (-1), column + 0) # (row + 1, column + 0) #
                         (row + 0, column + (-1)) # (row + 0, column + 1) # adj)
            (parsed @ [(row, column)]) (removed @ [(row, column)]) (Suc n)"
          by (simp add: neighbours_def)
        moreover have "rcb_while g k ((row, column) # adj) parsed removed n
            = rcb_while g' k ((row + (-1), column + 0) # (row + 1, column + 0) #
                         (row + 0, column + (-1)) # (row + 0, column + 1) # adj)
                (parsed @ [(row, column)]) (removed @ [(row, column)]) (Suc n)"
          using eq True chk g' by (subst rcb_while.simps(2)) simp
        ultimately show ?thesis using "2.IH"(1) [OF True chk _ g' k] eq by simp
      qed
    qed
  qed
  from this [OF refl init] show ?thesis .
qed

section \<open>Counting the work of the traversal\<close>

lemma neighbours_adjacent: "q \<in> set (neighbours p) \<longleftrightarrow> adjacent p q"
  by (cases p; cases q) (auto simp: neighbours_def adjacent_def)

lemma component_colour: "p \<in> component g c seed \<Longrightarrow> colourAt g p = Some c"
  by (induction rule: component.induct) auto

lemma removeBlock_colourAt:
  "removeBlock g i j = Inr g' \<Longrightarrow> colourAt g' q = (if q = (i, j) then Some None else colourAt g q)"
  by (simp add: removeBlock_def writeColour_colourAt)

lemma removeBlock_wf: "removeBlock g i j = Inr g' \<Longrightarrow> well_formed g \<Longrightarrow> well_formed g'"
  by (simp add: removeBlock_def writeColour_wf)

lemma removeBlock_coords: "removeBlock g i j = Inr g' \<Longrightarrow> coords g' = coords g"
  by (simp add: removeBlock_def writeColour_coords)

lemma rcb_while_counts:
  assumes "count_inv g0 g adj parsed removed n"
  shows "\<exists>g' removed' parsed' n'.
      rcb_while g c adj parsed removed n = Inr (g', removed', parsed', n')
      \<and> count_inv g0 g' [] parsed' removed' n'"
proof (rule rcb_while_rule [where I = "count_inv g0", OF assms])
  fix g adj parsed removed n
  assume "count_inv g0 g adj parsed removed n"
  then show "well_formed g" by (simp add: count_inv_def)
next
  fix g p adj parsed removed n
  assume "count_inv g0 g (p # adj) parsed removed n"
  then show "count_inv g0 g adj parsed removed (Suc n)"
    by (simp add: count_inv_def)
next
  fix g p adj parsed removed n c'
  assume "count_inv g0 g (p # adj) parsed removed n"
    "withinBoundaries g (fst p) (snd p)" "p \<notin> set parsed"
  moreover from this have "p \<in> cells g0"
    using cells_iff [of "fst p" "snd p" g] by (simp add: count_inv_def cells_def)
  ultimately show "count_inv g0 g adj (parsed @ [p]) removed (Suc n)"
    by (auto simp: count_inv_def)
next
  fix g p adj parsed removed n g'
  assume a: "count_inv g0 g (p # adj) parsed removed n"
    "withinBoundaries g (fst p) (snd p)" "p \<notin> set parsed"
    and r: "removeBlock g (fst p) (snd p) = Inr g'"
  from a have "p \<in> cells g0"
    using cells_iff [of "fst p" "snd p" g] by (simp add: count_inv_def cells_def)
  moreover from r a have "well_formed g'" "coords g' = coords g0"
    "width g' = width g0" "height g' = height g0"
    using removeBlock_dims [OF r]
    by (simp_all add: count_inv_def removeBlock_wf removeBlock_coords)
  ultimately show "count_inv g0 g' (neighbours p @ adj) (parsed @ [p]) (removed @ [p]) (Suc n)"
    using a by (auto simp: count_inv_def neighbours_def)
qed

lemma card_cells: "card (cells g) = nat (width g) * nat (height g)"
  by (simp add: cells_def card_cartesian_product)

lemma count_inv_final:
  assumes "count_inv g0 g [] parsed removed n"
  shows "length parsed \<le> nat (width g0) * nat (height g0)"
    and "length removed \<le> length parsed"
    and "n = 4 * length removed + 1"
proof -
  from assms have "card (set parsed) \<le> card (cells g0)"
    by (intro card_mono) (simp_all add: count_inv_def finite_cells)
  with assms show "length parsed \<le> nat (width g0) * nat (height g0)"
    by (simp add: count_inv_def distinct_card card_cells)
  from assms have "card (set removed) \<le> card (set parsed)"
    by (intro card_mono) (simp_all add: count_inv_def)
  with assms show "length removed \<le> length parsed"
    by (simp add: count_inv_def distinct_card)
  from assms show "n = 4 * length removed + 1"
    by (simp add: count_inv_def)
qed

section \<open>The traversal removes the component of the seed\<close>

lemma fill_invD:
  assumes "fill_inv g0 c seed g adj parsed removed"
  shows "well_formed g" and "width g = width g0" and "height g = height g0"
    and "\<And>q. colourAt g q = (if q \<in> set removed then Some None else colourAt g0 q)"
    and "distinct removed" and "set removed \<subseteq> set parsed"
    and "set removed \<subseteq> component g0 c seed"
    and "\<And>p. p \<in> set parsed \<Longrightarrow> colourAt g0 p = Some c \<Longrightarrow> p \<in> set removed"
    and "\<And>q. q \<in> set adj \<Longrightarrow> q = seed \<or> (\<exists>p \<in> set removed. adjacent p q)"
    and "seed \<in> set adj \<union> set parsed"
    and "\<And>p q. p \<in> set removed \<Longrightarrow> adjacent p q \<Longrightarrow> colourAt g0 q = Some c
         \<Longrightarrow> q \<in> set adj \<union> set parsed"
  using assms unfolding fill_inv_def by blast+

lemma colourAt_within:
  "well_formed g \<Longrightarrow> colourAt g p = Some c \<Longrightarrow> withinBoundaries g (fst p) (snd p)"
  using colourAt_defined_iff [of g "fst p" "snd p"] by simp

lemma fill_inv_discard:
  assumes inv: "fill_inv g0 c seed g (p # adj) parsed removed"
    and g0: "well_formed g0" "colourAt g0 seed = Some c"
    and p: "\<not> withinBoundaries g (fst p) (snd p) \<or> p \<in> set parsed"
  shows "fill_inv g0 c seed g adj parsed removed"
proof -
  have out: "colourAt g0 p \<noteq> Some c" if "p \<notin> set parsed"
  proof
    assume "colourAt g0 p = Some c"
    then have "withinBoundaries g0 (fst p) (snd p)"
      using g0 colourAt_within by blast
    then have "withinBoundaries g (fst p) (snd p)"
      using fill_invD(2,3) [OF inv] by (simp add: withinBoundaries_def)
    with p that show False by simp
  qed
  have "seed \<in> set adj \<union> set parsed"
    using fill_invD(10) [OF inv] out g0 by auto
  moreover have "\<forall>r \<in> set removed. \<forall>q. adjacent r q \<longrightarrow> colourAt g0 q = Some c
         \<longrightarrow> q \<in> set adj \<union> set parsed"
    using fill_invD(11) [OF inv] out by fastforce
  ultimately show ?thesis
    using inv by (simp add: fill_inv_def)
qed

lemma fill_inv_skip:
  assumes inv: "fill_inv g0 c seed g (p # adj) parsed removed"
    and p: "p \<notin> set parsed" "colourAt g p = Some c'" "c' \<noteq> c"
  shows "fill_inv g0 c seed g adj (parsed @ [p]) removed"
proof -
  from p have "p \<notin> set removed" using fill_invD(6) [OF inv] by auto
  with p have out: "colourAt g0 p \<noteq> Some c"
    using fill_invD(4) [OF inv, of p] by simp
  have "seed \<in> set adj \<union> set (parsed @ [p])"
    using fill_invD(10) [OF inv] by auto
  moreover have "\<forall>r \<in> set removed. \<forall>q. adjacent r q \<longrightarrow> colourAt g0 q = Some c
         \<longrightarrow> q \<in> set adj \<union> set (parsed @ [p])"
    using fill_invD(11) [OF inv] by fastforce
  moreover have "\<forall>r \<in> set (parsed @ [p]). colourAt g0 r = Some c \<longrightarrow> r \<in> set removed"
    using fill_invD(8) [OF inv] out by auto
  moreover have "set removed \<subseteq> set (parsed @ [p])"
    using fill_invD(6) [OF inv] by auto
  ultimately show ?thesis
    using inv by (simp add: fill_inv_def)
qed

lemma fill_inv_remove:
  assumes inv: "fill_inv g0 c seed g (p # adj) parsed removed"
    and g0: "colourAt g0 seed = Some c" and c: "c \<noteq> None"
    and p: "p \<notin> set parsed" "colourAt g p = Some c"
    and r: "removeBlock g (fst p) (snd p) = Inr g'"
  shows "fill_inv g0 c seed g' (neighbours p @ adj) (parsed @ [p]) (removed @ [p])"
proof -
  from p have nr: "p \<notin> set removed" using fill_invD(6) [OF inv] by auto
  with p have col: "colourAt g0 p = Some c"
    using fill_invD(4) [OF inv, of p] by simp
  have comp: "p \<in> component g0 c seed"
  proof -
    have "p = seed \<or> (\<exists>r \<in> set removed. adjacent r p)"
      using fill_invD(9) [OF inv, of p] by simp
    then show ?thesis
    proof
      assume "p = seed"
      with g0 show ?thesis by (simp add: component.seed)
    next
      assume "\<exists>r \<in> set removed. adjacent r p"
      then obtain r where "r \<in> set removed" "adjacent r p" by blast
      moreover from this have "r \<in> component g0 c seed"
        using fill_invD(7) [OF inv] by auto
      ultimately show ?thesis using col by (blast intro: component.step)
    qed
  qed
  have 1: "well_formed g'" "width g' = width g0" "height g' = height g0"
    using fill_invD(1-3) [OF inv] removeBlock_dims [OF r] removeBlock_wf [OF r] by simp_all
  have 2: "\<forall>q. colourAt g' q = (if q \<in> set (removed @ [p]) then Some None else colourAt g0 q)"
    using fill_invD(4) [OF inv] removeBlock_colourAt [OF r] by simp
  have 3: "distinct (removed @ [p])" "set (removed @ [p]) \<subseteq> set (parsed @ [p])"
    "set (removed @ [p]) \<subseteq> component g0 c seed"
    using fill_invD(5-7) [OF inv] nr comp by auto
  have 4: "\<forall>r \<in> set (parsed @ [p]). colourAt g0 r = Some c \<longrightarrow> r \<in> set (removed @ [p])"
    using fill_invD(8) [OF inv] by auto
  have 5: "\<forall>q \<in> set (neighbours p @ adj). q = seed \<or> (\<exists>r \<in> set (removed @ [p]). adjacent r q)"
    using fill_invD(9) [OF inv] by (auto simp: neighbours_adjacent)
  have 6: "seed \<in> set (neighbours p @ adj) \<union> set (parsed @ [p])"
    using fill_invD(10) [OF inv] by auto
  have 7: "\<forall>r \<in> set (removed @ [p]). \<forall>q. adjacent r q \<longrightarrow> colourAt g0 q = Some c
         \<longrightarrow> q \<in> set (neighbours p @ adj) \<union> set (parsed @ [p])"
  proof (intro ballI allI impI)
    fix r q
    assume rq: "r \<in> set (removed @ [p])" "adjacent r q" "colourAt g0 q = Some c"
    show "q \<in> set (neighbours p @ adj) \<union> set (parsed @ [p])"
    proof (cases "r = p")
      case True
      with rq show ?thesis by (simp add: neighbours_adjacent)
    next
      case False
      with rq have "r \<in> set removed" by simp
      with rq have "q \<in> set (p # adj) \<union> set parsed"
        using fill_invD(11) [OF inv] by blast
      then show ?thesis by auto
    qed
  qed
  show ?thesis
    unfolding fill_inv_def using 1 2 3 4 5 6 7 by blast
qed

lemma fill_inv_final:
  assumes inv: "fill_inv g0 c seed g [] parsed removed"
    and g0: "colourAt g0 seed = Some c"
  shows "set removed = component g0 c seed"
proof
  show "set removed \<subseteq> component g0 c seed"
    using fill_invD(7) [OF inv] .
  show "component g0 c seed \<subseteq> set removed"
  proof
    fix q
    assume "q \<in> component g0 c seed"
    then show "q \<in> set removed"
    proof (induction rule: component.induct)
      case seed
      then show ?case using fill_invD(8,10) [OF inv] by auto
    next
      case (step p q)
      then have "q \<in> set parsed"
        using fill_invD(11) [OF inv] by auto
      with step show ?case using fill_invD(8) [OF inv] by auto
    qed
  qed
qed

lemma rcb_while_fill:
  assumes inv: "fill_inv g0 c seed g adj parsed removed"
    and g0: "well_formed g0" "colourAt g0 seed = Some c" and c: "c \<noteq> None"
  shows "\<exists>g' removed' parsed' n'.
      rcb_while g c adj parsed removed n = Inr (g', removed', parsed', n')
      \<and> fill_inv g0 c seed g' [] parsed' removed'"
proof (rule rcb_while_rule [where I = "\<lambda>g adj parsed removed n. fill_inv g0 c seed g adj parsed removed", OF inv])
  fix g adj parsed removed
  assume "fill_inv g0 c seed g adj parsed removed"
  then show "well_formed g" by (simp add: fill_inv_def)
next
  fix g p adj parsed removed
  assume "fill_inv g0 c seed g (p # adj) parsed removed"
    "\<not> withinBoundaries g (fst p) (snd p) \<or> p \<in> set parsed"
  then show "fill_inv g0 c seed g adj parsed removed"
    using g0 fill_inv_discard by blast
next
  fix g p adj parsed removed c'
  assume "fill_inv g0 c seed g (p # adj) parsed removed" "p \<notin> set parsed"
    "colourAt g p = Some c'" "c' \<noteq> c"
  then show "fill_inv g0 c seed g adj (parsed @ [p]) removed"
    using fill_inv_skip by blast
next
  fix g p adj parsed removed g'
  assume "fill_inv g0 c seed g (p # adj) parsed removed" "p \<notin> set parsed"
    "colourAt g p = Some c" "removeBlock g (fst p) (snd p) = Inr g'"
  then show "fill_inv g0 c seed g' (neighbours p @ adj) (parsed @ [p]) (removed @ [p])"
    using g0(2) c fill_inv_remove by blast
qed

section \<open>The loops of the compaction, column by column\<close>

lemma length_colours: "length (colours g) = length (grid g)"
  by (simp add: colours_def)

lemma length_colours_nth: "k < length (grid g) \<Longrightarrow> length (colours g ! k) = length (grid g ! k)"
  by (simp add: colours_def)

lemma readColour_colours:
  assumes "0 \<le> i" "nat i < length (grid g)" "0 \<le> j" "nat j < length (grid g ! nat i)"
  shows "readColour g i j = Inr (colours g ! nat i ! nat j)"
proof -
  from assms have "blockAt g i j = Some (grid g ! nat i ! nat j)"
    by (simp add: blockAt_Some_iff)
  then show ?thesis using assms by (simp add: readColour_blockAt colours_def)
qed

lemma writeColour_colours:
  assumes "0 \<le> i" "nat i < length (grid g)" "0 \<le> j" "nat j < length (grid g ! nat i)"
  shows "\<exists>g'. writeColour g i j c = Inr g' \<and> coords g' = coords g
     \<and> width g' = width g \<and> height g' = height g
     \<and> length (grid g') = length (grid g)
     \<and> colours g' = (colours g)[nat i := (colours g ! nat i)[nat j := c]]"
proof -
  from assms have b: "blockAt g i j = Some (grid g ! nat i ! nat j)"
    by (simp add: blockAt_Some_iff)
  then obtain g' where g': "writeColour g i j c = Inr g'"
    and gr: "grid g' = (grid g)[nat i := (grid g ! nat i)[nat j := (grid g ! nat i ! nat j)\<lparr>block_colour := c\<rparr>]]"
    by (simp add: writeColour_blockAt)
  have "colours g' = (colours g)[nat i := (colours g ! nat i)[nat j := c]]"
    using assms by (simp add: colours_def gr map_update)
  moreover have "length (grid g') = length (grid g)" by (simp add: gr)
  ultimately show ?thesis
    using g' writeColour_coords [OF g'] writeColour_dims [OF g'] by simp
qed

lemma slot_exists:
  assumes "0 \<le> i" "nat i < length (grid g)" "0 \<le> j"
  shows "slot g i j = Inr s \<Longrightarrow> (s \<noteq> None) = (nat j < length (grid g ! nat i))"
  using assms by (auto simp: slot_def js_index_def split: option.splits if_splits)

lemma slot_defined:
  assumes "0 \<le> i" "nat i < length (grid g)"
  shows "\<exists>s. slot g i j = Inr s"
  using assms by (auto simp: slot_def js_index_def split: option.splits if_splits)

lemma blockBelowIsEmpty_colours:
  assumes "0 \<le> i" "nat i < length (grid g)" "0 \<le> j" "nat j < length (grid g ! nat i)"
  shows "blockBelowIsEmpty g i j =
    Inr (colours g ! nat i ! nat j = None \<and> Suc (nat j) < length (grid g ! nat i))"
proof -
  obtain s where s: "slot g i (j + 1) = Inr s"
    using slot_defined [OF assms(1,2)] by blast
  have "(s \<noteq> None) = (nat (j + 1) < length (grid g ! nat i))"
    using slot_exists [OF assms(1,2) _ s] assms by simp
  moreover have "nat (j + 1) = Suc (nat j)" using assms by simp
  ultimately show ?thesis
    using s by (simp add: blockBelowIsEmpty_def readColour_colours [OF assms])
qed

lemma moveBlockDown_colours:
  assumes "0 \<le> i" "nat i < length (grid g)" "0 \<le> j" "Suc (nat j) < length (grid g ! nat i)"
  shows "\<exists>g'. moveBlockDown g i j = Inr g' \<and> coords g' = coords g
     \<and> width g' = width g \<and> height g' = height g
     \<and> length (grid g') = length (grid g)
     \<and> colours g' = (colours g)[nat i :=
          ((colours g ! nat i)[nat j := colours g ! nat i ! Suc (nat j)])[Suc (nat j) := None]]"
proof -
  have n: "nat (j + 1) = Suc (nat j)" "0 \<le> j + 1" using assms by simp_all
  have rd: "readColour g i (j + 1) = Inr (colours g ! nat i ! Suc (nat j))"
    using readColour_colours [of i g "j + 1"] assms n by simp
  obtain g1 where g1: "writeColour g i j (colours g ! nat i ! Suc (nat j)) = Inr g1"
    "coords g1 = coords g" "width g1 = width g" "height g1 = height g"
    "length (grid g1) = length (grid g)"
    "colours g1 = (colours g)[nat i := (colours g ! nat i)[nat j := colours g ! nat i ! Suc (nat j)]]"
    using writeColour_colours [of i g j] assms by force
  have len1: "length (grid g1 ! nat i) = length (grid g ! nat i)"
    using arg_cong [OF g1(6), of "\<lambda>m. length (m ! nat i)"] assms g1(5)
    by (simp add: length_colours_nth length_colours)
  obtain g2 where g2: "writeColour g1 i (j + 1) None = Inr g2"
    "coords g2 = coords g1" "width g2 = width g1" "height g2 = height g1"
    "length (grid g2) = length (grid g1)"
    "colours g2 = (colours g1)[nat i := (colours g1 ! nat i)[nat (j + 1) := None]]"
    using writeColour_colours [of i g1 "j + 1" None] assms n g1(5) len1 by force
  have "moveBlockDown g i j = Inr g2"
    by (simp add: moveBlockDown_def rd g1 g2)
  moreover have "colours g2 = (colours g)[nat i :=
          ((colours g ! nat i)[nat j := colours g ! nat i ! Suc (nat j)])[Suc (nat j) := None]]"
    using assms by (simp add: g2(6) g1(6) n length_colours)
  ultimately show ?thesis using g1 g2 by simp
qed

lemma same_frame_refl: "same_frame g g"
  by (simp add: same_frame_def)

lemma same_frame_trans: "same_frame g'' g' \<Longrightarrow> same_frame g' g \<Longrightarrow> same_frame g'' g"
  by (simp add: same_frame_def)

lemma drop_gap_step:
  assumes "Suc k < length cs" and "cs ! k = None"
  shows "drop_gap ((cs[k := cs ! Suc k])[Suc k := None]) (Suc k) = drop_gap cs k"
proof -
  let ?cs = "(cs[k := cs ! Suc k])[Suc k := None]"
  have "take (Suc k) ?cs = take k cs @ [cs ! Suc k]"
    using assms by (simp add: take_Suc_conv_app_nth)
  moreover have "drop (Suc (Suc k)) ?cs = drop (Suc (Suc k)) cs"
    by simp
  moreover have "drop (Suc k) cs = cs ! Suc k # drop (Suc (Suc k)) cs"
    using assms by (simp add: Cons_nth_drop_Suc)
  moreover have "?cs ! Suc k = None" using assms by simp
  ultimately show ?thesis using assms by (simp add: drop_gap_def)
qed

lemma drop_gap_top:
  assumes "Suc k = length cs"
  shows "drop_gap cs k = cs"
proof (cases "cs ! k = None")
  case True
  have "cs = take k cs @ [cs ! k]"
    using assms by (metis lessI take_Suc_conv_app_nth take_all order_refl)
  with True assms show ?thesis by (simp add: drop_gap_def)
next
  case False
  then show ?thesis by (auto simp: drop_gap_def)
qed

lemma length_drop_gap: "k < length cs \<Longrightarrow> length (drop_gap cs k) = length cs"
  by (auto simp: drop_gap_def)

lemma shift_while_colours:
  assumes "0 \<le> i" "nat i < length (grid g)" "0 \<le> j" "nat j < length (grid g ! nat i)"
  shows "\<exists>g'. shift_while g i j = Inr g' \<and> same_frame g' g
     \<and> length (grid g') = length (grid g)
     \<and> colours g' = (colours g)[nat i := drop_gap (colours g ! nat i) (nat j)]"
  using assms
proof (induction g i j rule: shift_while.induct)
  case (1 g i j)
  let ?col = "colours g ! nat i"
  have len: "length ?col = length (grid g ! nat i)" "nat i < length (colours g)"
    using 1 by (simp_all add: length_colours_nth length_colours)
  have b: "blockBelowIsEmpty g i j = Inr (?col ! nat j = None \<and> Suc (nat j) < length (grid g ! nat i))"
    using blockBelowIsEmpty_colours 1 by simp
  show ?case
  proof (cases "?col ! nat j = None \<and> Suc (nat j) < length (grid g ! nat i)")
    case False
    then have "drop_gap ?col (nat j) = ?col"
    proof (cases "?col ! nat j = None")
      case True
      with False 1 have "Suc (nat j) = length ?col" using len by simp
      then show ?thesis by (rule drop_gap_top)
    qed (auto simp: drop_gap_def)
    moreover have "shift_while g i j = Inr g"
      using b False by (subst shift_while.simps) auto
    ultimately show ?thesis by (simp add: same_frame_refl)
  next
    case True
    then obtain g1 where g1: "moveBlockDown g i j = Inr g1" "same_frame g1 g"
      "length (grid g1) = length (grid g)"
      "colours g1 = (colours g)[nat i := (?col[nat j := ?col ! Suc (nat j)])[Suc (nat j) := None]]"
      using moveBlockDown_colours [of i g j] 1 by (force simp: same_frame_def)
    let ?col1 = "(?col[nat j := ?col ! Suc (nat j)])[Suc (nat j) := None]"
    have c1: "colours g1 ! nat i = ?col1"
      using len by (simp add: g1(4))
    have len1: "length (grid g1 ! nat i) = length (grid g ! nat i)"
      using arg_cong [OF c1, of length] len g1(3) 1 by (simp add: length_colours_nth)
    have n: "nat (j + 1) = Suc (nat j)" "0 \<le> j + 1" using 1 by simp_all
    have "\<exists>g'. shift_while g1 i (j + 1) = Inr g' \<and> same_frame g' g1
       \<and> length (grid g') = length (grid g1)
       \<and> colours g' = (colours g1)[nat i := drop_gap (colours g1 ! nat i) (nat (j + 1))]"
      using "1.IH" [OF b _ g1(1)] True 1 g1(3) len1 n by simp
    then obtain g' where g': "shift_while g1 i (j + 1) = Inr g'" "same_frame g' g1"
      "length (grid g') = length (grid g1)"
      "colours g' = (colours g1)[nat i := drop_gap (colours g1 ! nat i) (nat (j + 1))]"
      by blast
    have "drop_gap ?col1 (Suc (nat j)) = drop_gap ?col (nat j)"
      using True len by (intro drop_gap_step) simp_all
    then have "colours g' = (colours g)[nat i := drop_gap ?col (nat j)]"
      using len by (simp add: g'(4) n g1(4))
    moreover have "shift_while g i j = Inr g'"
      using b True g1(1) g'(1) by (subst shift_while.simps) simp
    ultimately show ?thesis
      using g' g1 same_frame_trans by auto
  qed
qed

lemma shift_for_colours:
  assumes "0 \<le> i" "nat i < length (grid g)" "y < int (length (grid g ! nat i))"
  shows "\<exists>g'. shift_for g i y = Inr g' \<and> same_frame g' g
     \<and> length (grid g') = length (grid g)
     \<and> colours g' = (colours g)[nat i := sweep (colours g ! nat i) (nat (y + 1))]"
  using assms
proof (induction g i y rule: shift_for.induct)
  case (1 g i y)
  let ?col = "colours g ! nat i"
  have len: "length ?col = length (grid g ! nat i)" "nat i < length (colours g)"
    using 1 by (simp_all add: length_colours_nth length_colours)
  show ?case
  proof (cases "y \<ge> 0")
    case False
    then have "shift_for g i y = Inr g" by (subst shift_for.simps) simp
    moreover from False have "nat (y + 1) = 0" by simp
    ultimately show ?thesis using len by (simp add: same_frame_refl)
  next
    case True
    then have y: "nat y < length (grid g ! nat i)" "nat (y + 1) = Suc (nat y)"
      using 1 by simp_all
    obtain g1 where g1: "shift_while g i y = Inr g1" "same_frame g1 g"
      "length (grid g1) = length (grid g)"
      "colours g1 = (colours g)[nat i := drop_gap ?col (nat y)]"
      using shift_while_colours [of i g y] 1 True y by blast
    have c1: "colours g1 ! nat i = drop_gap ?col (nat y)"
      using len by (simp add: g1(4))
    have len1: "length (grid g1 ! nat i) = length (grid g ! nat i)"
      using arg_cong [OF c1, of length] len g1(3) 1 y by (simp add: length_colours_nth length_drop_gap)
    have "\<exists>g'. shift_for g1 i (y - 1) = Inr g' \<and> same_frame g' g1
       \<and> length (grid g') = length (grid g1)
       \<and> colours g' = (colours g1)[nat i := sweep (colours g1 ! nat i) (nat (y - 1 + 1))]"
      using "1.IH" [OF True g1(1)] 1 g1(3) len1 by simp
    then obtain g' where g': "shift_for g1 i (y - 1) = Inr g'" "same_frame g' g1"
      "length (grid g') = length (grid g1)"
      "colours g' = (colours g1)[nat i := sweep (colours g1 ! nat i) (nat y)]"
      by auto
    have "colours g' = (colours g)[nat i := sweep ?col (nat (y + 1))]"
      using len by (simp add: g'(4) g1(4) y)
    moreover have "shift_for g i y = Inr g'"
      using True g1(1) g'(1) by (subst shift_for.simps) simp
    ultimately show ?thesis
      using g' g1 same_frame_trans by auto
  qed
qed

lemma settle_Cons_Some: "c \<noteq> None \<Longrightarrow> settle (c # cs) = c # settle cs"
  by (simp add: settle_def)

lemma settle_snoc_None: "settle (cs @ [None]) = settle cs @ [None]"
  by (simp add: settle_def replicate_append_same)

lemma settle_move: "settle (xs @ None # ys) = settle (xs @ ys @ [None])"
  by (simp add: settle_def)

lemma settle_idem: "settle (settle cs) = settle cs"
  by (auto simp: settle_def filter_empty_conv)

lemma sweep_settled:
  assumes "m \<le> length cs" and "settle (drop m cs) = drop m cs"
  shows "sweep cs m = settle cs"
  using assms
proof (induction m arbitrary: cs)
  case 0
  then show ?case by simp
next
  case (Suc m)
  then have m: "m < length cs" by simp
  have cs: "cs = take m cs @ cs ! m # drop (Suc m) cs"
    using m by (simp add: id_take_nth_drop [symmetric])
  show ?case
  proof (cases "cs ! m = None")
    case True
    let ?cs = "take m cs @ drop (Suc m) cs @ [None]"
    have dg: "drop_gap cs m = ?cs" using True by (simp add: drop_gap_def)
    have "drop m ?cs = drop (Suc m) cs @ [None]"
      using m by simp
    then have "settle (drop m ?cs) = drop m ?cs"
      using Suc.prems(2) by (simp add: settle_snoc_None)
    moreover have "m \<le> length ?cs" using m by simp
    ultimately have "sweep ?cs m = settle ?cs"
      using Suc.IH [of ?cs] by blast
    moreover have "settle ?cs = settle cs"
      using settle_move [of "take m cs" "drop (Suc m) cs"] cs True by simp
    ultimately show ?thesis by (simp add: dg)
  next
    case False
    then have dg: "drop_gap cs m = cs" by (auto simp: drop_gap_def)
    have "drop m cs = cs ! m # drop (Suc m) cs"
      using m by (simp add: Cons_nth_drop_Suc)
    then have "settle (drop m cs) = drop m cs"
      using False Suc.prems(2) by (simp add: settle_Cons_Some)
    then have "sweep cs m = settle cs"
      using m by (intro Suc.IH) simp_all
    then show ?thesis by (simp add: dg)
  qed
qed

lemma sweep_all: "sweep cs (length cs) = settle cs"
  by (rule sweep_settled) (simp_all add: settle_def)

lemma wf_grid_lengths:
  assumes "well_formed g"
  shows "length (grid g) = nat (width g)"
    and "\<And>k. k < nat (width g) \<Longrightarrow> length (grid g ! k) = nat (height g)"
  using assms by (simp_all add: wf_length wf_column_length)

lemma same_frame_wf: "same_frame g' g \<Longrightarrow> well_formed g \<Longrightarrow> well_formed g'"
  by (simp add: same_frame_def well_formed_coords)

lemma settle_columns_empty: "settle_columns {} cols = cols"
  by (simp add: settle_columns_def map_nth)

lemma settle_columns_insert:
  assumes "0 \<le> i" "nat i < length cols"
  shows "settle_columns A (cols[nat i := settle (cols ! nat i)]) = settle_columns (insert i A) cols"
  using assms
  by (auto simp: settle_columns_def nth_list_update settle_idem)

lemma shift_column_colours:
  assumes "well_formed g" "0 \<le> i" "i < width g"
  shows "\<exists>g'. shift_for g i (height g - 1) = Inr g' \<and> same_frame g' g
     \<and> colours g' = (colours g)[nat i := settle (colours g ! nat i)]"
proof -
  have l: "nat i < length (grid g)" "length (grid g ! nat i) = nat (height g)"
    using assms wf_grid_lengths [OF assms(1)] by simp_all
  then have "height g - 1 < int (length (grid g ! nat i))" by simp
  from shift_for_colours [OF assms(2) l(1) this]
  obtain g' where g': "shift_for g i (height g - 1) = Inr g'" "same_frame g' g"
    "colours g' = (colours g)[nat i := sweep (colours g ! nat i) (nat (height g - 1 + 1))]"
    by blast
  have "nat (height g - 1 + 1) = length (colours g ! nat i)"
    using l by (simp add: length_colours_nth)
  then show ?thesis using g' by (simp add: sweep_all)
qed

lemma shiftBlocksDownward_colours:
  assumes "well_formed g" and "\<forall>p \<in> set removed. 0 \<le> fst p \<and> fst p < width g"
  shows "\<exists>g'. shiftBlocksDownward g removed = Inr g' \<and> same_frame g' g
     \<and> colours g' = settle_columns (fst ` set removed) (colours g)"
  using assms
proof (induction removed arbitrary: g)
  case Nil
  then show ?case by (simp add: same_frame_refl settle_columns_empty)
next
  case (Cons p removed)
  obtain i j where p: "p = (i, j)" by (cases p)
  with Cons.prems have i: "0 \<le> i" "i < width g" by simp_all
  obtain g1 where g1: "shift_for g i (height g - 1) = Inr g1" "same_frame g1 g"
    "colours g1 = (colours g)[nat i := settle (colours g ! nat i)]"
    using shift_column_colours [OF Cons.prems(1) i] by blast
  have wf1: "well_formed g1" using g1(2) Cons.prems(1) by (rule same_frame_wf)
  have "\<forall>p \<in> set removed. 0 \<le> fst p \<and> fst p < width g1"
    using Cons.prems(2) g1(2) by (simp add: same_frame_def)
  from Cons.IH [OF wf1 this]
  obtain g' where g': "shiftBlocksDownward g1 removed = Inr g'" "same_frame g' g1"
    "colours g' = settle_columns (fst ` set removed) (colours g1)"
    by blast
  have "nat i < length (colours g)"
    using i wf_grid_lengths(1) [OF Cons.prems(1)] by (simp add: length_colours)
  then have "colours g' = settle_columns (fst ` set (p # removed)) (colours g)"
    using i by (simp add: g'(3) g1(3) settle_columns_insert p)
  moreover have "shiftBlocksDownward g (p # removed) = Inr g'"
    by (simp add: p g1(1) g'(1))
  ultimately show ?case using g'(2) g1(2) same_frame_trans by blast
qed

section \<open>The constructor\<close>

lemma column_loop_eq:
  "column_loop policy h i j column = column @ map (newBlock policy i) [j..h - 1]"
proof (induction policy h i j column rule: column_loop.induct)
  case (1 policy h i j column)
  show ?case
  proof (cases "j < h")
    case True
    then have "[j..h - 1] = j # [j + 1..h - 1]"
      by (simp add: upto_rec1)
    with True "1.IH" show ?thesis
      by (subst column_loop.simps) simp
  next
    case False
    then show ?thesis by (subst column_loop.simps) simp
  qed
qed

lemma grid_loop_eq:
  "grid_loop policy w h i columns
     = columns @ map (\<lambda>i. map (newBlock policy i) [0..h - 1]) [i..w - 1]"
proof (induction policy w h i columns rule: grid_loop.induct)
  case (1 policy w h i columns)
  show ?case
  proof (cases "i < w")
    case True
    then have "[i..w - 1] = i # [i + 1..w - 1]"
      by (simp add: upto_rec1)
    with True "1.IH" show ?thesis
      by (subst grid_loop.simps) (simp add: column_loop_eq)
  next
    case False
    then show ?thesis by (subst grid_loop.simps) simp
  qed
qed

lemma new_BlockGrid_grid:
  "new_BlockGrid policy (Some w) (Some h)
     = \<lparr>width = w, height = h, grid = map (\<lambda>i. map (newBlock policy i) [0..h - 1]) [0..w - 1]\<rparr>"
  by (simp add: new_BlockGrid_def grid_loop_eq)

lemma new_BlockGrid_wf: "well_formed (new_BlockGrid policy (Some w) (Some h))"
  by (simp add: new_BlockGrid_grid well_formed_def newBlock_def comp_def)

lemma new_BlockGrid_blockAt:
  assumes "0 \<le> i" "i < w" "0 \<le> j" "j < h"
  shows "blockAt (new_BlockGrid policy (Some w) (Some h)) i j = Some (newBlock policy i j)"
  using assms by (simp add: new_BlockGrid_grid blockAt_Some_iff nth_upto)

lemma new_BlockGrid_default:
  "new_BlockGrid policy None None = new_BlockGrid policy (Some 10) (Some 10)"
  "new_BlockGrid policy None (Some h) = new_BlockGrid policy (Some 10) (Some h)"
  "new_BlockGrid policy (Some w) None = new_BlockGrid policy (Some w) (Some 10)"
  by (simp_all add: new_BlockGrid_def)

section \<open>A resolution never fails\<close>

lemma column_of_colours:
  "0 \<le> i \<Longrightarrow> nat i < length (grid g) \<Longrightarrow> column_of g i = colours g ! nat i"
  by (simp add: column_of_def js_index_def colours_def del: of_nat_less_iff) arith

lemma same_frame_lengths:
  assumes "same_frame g' g"
  shows "length (grid g') = length (grid g)"
proof -
  from assms have "length (coords g') = length (coords g)"
    by (simp add: same_frame_def)
  then show ?thesis by (simp add: coords_def)
qed

lemma count_inv_start: "well_formed g \<Longrightarrow> count_inv g g [p] [] [] 0"
  by (simp add: count_inv_def)

lemma fill_inv_start:
  "well_formed g \<Longrightarrow> fill_inv g c seed g [seed] [] []"
  by (simp add: fill_inv_def)

lemma traversal_total:
  assumes "well_formed g"
  shows "\<exists>g' removed parsed pops.
      rcb_while g c [p] [] [] 0 = Inr (g', removed, parsed, pops)
      \<and> count_inv g g' [] parsed removed pops"
  using rcb_while_counts [OF count_inv_start [OF assms]] .

lemma count_inv_removed_cells:
  assumes "count_inv g0 g adj parsed removed n" and "p \<in> set removed"
  shows "0 \<le> fst p \<and> fst p < width g \<and> 0 \<le> snd p \<and> snd p < height g"
proof -
  from assms have "p \<in> cells g0" by (auto simp: count_inv_def)
  with assms(1) show ?thesis by (auto simp: cells_def count_inv_def)
qed

lemma resolution_total:
  assumes "well_formed g"
  shows "\<exists>g1 removed g2.
      removeConnectedBlocks g i j c [] = Inr (g1, removed)
      \<and> shiftBlocksDownward g1 removed = Inr g2
      \<and> same_frame g1 g \<and> same_frame g2 g
      \<and> (\<forall>p \<in> set removed. withinBoundaries g (fst p) (snd p))
      \<and> colours g2 = settle_columns (fst ` set removed) (colours g1)"
proof -
  obtain g1 removed parsed pops where
    r: "rcb_while g c [(i, j)] [] [] 0 = Inr (g1, removed, parsed, pops)"
    and inv: "count_inv g g1 [] parsed removed pops"
    using traversal_total [OF assms] by blast
  have f1: "same_frame g1 g" and wf1: "well_formed g1"
    using inv by (simp_all add: count_inv_def same_frame_def)
  have b: "\<forall>p \<in> set removed. 0 \<le> fst p \<and> fst p < width g1"
    using count_inv_removed_cells [OF inv] by blast
  obtain g2 where g2: "shiftBlocksDownward g1 removed = Inr g2" "same_frame g2 g1"
    "colours g2 = settle_columns (fst ` set removed) (colours g1)"
    using shiftBlocksDownward_colours [OF wf1 b] by blast
  have "removeConnectedBlocks g i j c [] = Inr (g1, removed)"
    by (simp add: removeConnectedBlocks_def r)
  moreover have "\<forall>p \<in> set removed. withinBoundaries g (fst p) (snd p)"
    using count_inv_removed_cells [OF inv] f1 by (simp add: withinBoundaries_def same_frame_def)
  ultimately show ?thesis
    using g2 f1 same_frame_trans by blast
qed

lemma blockClicked_total:
  assumes "well_formed g"
  shows "\<exists>g' removed. blockClicked g b = Inr (g', removed) \<and> same_frame g' g"
proof (cases "block_colour b = None")
  case True
  then show ?thesis by (simp add: blockClicked_def same_frame_refl)
next
  case False
  obtain g1 removed g2 where
    "removeConnectedBlocks g (block_x b) (block_y b) (block_colour b) [] = Inr (g1, removed)"
    "shiftBlocksDownward g1 removed = Inr g2" "same_frame g2 g"
    using resolution_total [OF assms] by blast
  with False show ?thesis by (simp add: blockClicked_def)
qed

lemma blockClicked_empty:
  "block_colour b = None \<Longrightarrow> blockClicked g b = Inr (g, [])"
  by (simp add: blockClicked_def)

lemma blockAt_coords:
  assumes "well_formed g" and "blockAt g i j = Some b"
  shows "block_x b = i \<and> block_y b = j"
proof -
  from assms(2) have r: "0 \<le> i" "nat i < length (grid g)" "0 \<le> j"
    "nat j < length (grid g ! nat i)" "b = grid g ! nat i ! nat j"
    by (simp_all add: blockAt_Some_iff)
  then have "nat i < nat (width g)" "nat j < nat (height g)"
    using wf_grid_lengths [OF assms(1)] by simp_all
  from wf_block [OF assms(1) this] r show ?thesis by simp
qed

lemma settle_all_None: "set cs \<subseteq> {None} \<Longrightarrow> settle cs = cs"
proof -
  assume a: "set cs \<subseteq> {None}"
  then have "filter (\<lambda>c. c \<noteq> None) cs = []" "filter (\<lambda>c. c = None) cs = cs"
    by (auto simp: filter_empty_conv filter_id_conv)
  moreover from a have "replicate (length cs) None = cs"
    by (induction cs) auto
  ultimately show ?thesis by (simp add: settle_def)
qed

lemma slot_above_top:
  assumes "well_formed g" and "0 \<le> i \<and> i < width g"
  shows "slot g i (height g) = Inr None"
proof -
  from assms have "nat i < length (grid g)" "length (grid g ! nat i) = nat (height g)"
    using wf_grid_lengths [OF assms(1)] by simp_all
  with assms show ?thesis
    by (auto simp: slot_def js_index_def)
qed

section \<open>The log of a resolution\<close>

lemma untraced_Inr_iff: "untraced x = Inr r \<longleftrightarrow> (\<exists>tr. x = Inr (r, tr))"
  by (cases x rule: untraced.cases) auto

lemma rcb_while_untraced:
  "untraced (rcb_while_traced g c adj parsed removed pops tr)
     = rcb_while g c adj parsed removed pops"
proof (induction g c adj parsed removed pops arbitrary: tr rule: rcb_while.induct)
  case (1 g c parsed removed pops)
  then show ?case by simp
next
  case (2 g c row column adj parsed removed pops)
  show ?case
  proof (cases "withinBoundaries g row column \<and> (row, column) \<notin> set parsed")
    case False
    then show ?thesis
      using "2.IH"(3) [OF False]
      by (subst rcb_while_traced.simps(2), subst rcb_while.simps(2)) auto
  next
    case True
    show ?thesis
    proof (cases "checkBlockColour g row column c")
      case (Inl e)
      then show ?thesis
        using True by (subst rcb_while_traced.simps(2), subst rcb_while.simps(2)) simp
    next
      case (Inr matches)
      show ?thesis
      proof (cases matches)
        case False
        then show ?thesis
          using True Inr "2.IH"(2) [OF True Inr]
          by (subst rcb_while_traced.simps(2), subst rcb_while.simps(2)) simp
      next
        case m: True
        show ?thesis
        proof (cases "removeBlock g row column")
          case (Inl e)
          then show ?thesis
            using True Inr m
            by (subst rcb_while_traced.simps(2), subst rcb_while.simps(2)) simp
        next
          case r: (Inr g')
          show ?thesis
            using True Inr m r "2.IH"(1) [OF True Inr m r]
            by (subst rcb_while_traced.simps(2), subst rcb_while.simps(2)) simp
        qed
      qed
    qed
  qed
qed

lemma shift_while_untraced:
  "untraced (shift_while_traced g i j tr) = shift_while g i j"
proof (induction g i j arbitrary: tr rule: shift_while.induct)
  case (1 g i j)
  show ?case
  proof (cases "blockBelowIsEmpty g i j")
    case (Inl e)
    then show ?thesis
      by (subst shift_while_traced.simps, subst shift_while.simps) simp
  next
    case (Inr isEmpty)
    show ?thesis
    proof (cases isEmpty)
      case False
      then show ?thesis
        using Inr by (subst shift_while_traced.simps, subst shift_while.simps) simp
    next
      case True
      show ?thesis
      proof (cases "moveBlockDown g i j")
        case (Inl e)
        then show ?thesis
          using Inr True by (subst shift_while_traced.simps, subst shift_while.simps) simp
      next
        case m: (Inr g')
        show ?thesis
          using Inr True m "1.IH" [OF Inr True m]
          by (subst shift_while_traced.simps, subst shift_while.simps) simp
      qed
    qed
  qed
qed

lemma shift_for_untraced:
  "untraced (shift_for_traced g i y tr) = shift_for g i y"
proof (induction g i y arbitrary: tr rule: shift_for.induct)
  case (1 g i y)
  show ?case
  proof (cases "y \<ge> 0")
    case False
    then show ?thesis
      by (subst shift_for_traced.simps, subst shift_for.simps) simp
  next
    case True
    show ?thesis
    proof (cases "shift_while_traced g i y tr")
      case (Inl e)
      then have "shift_while g i y = Inl e"
        using shift_while_untraced [of g i y tr] by simp
      with Inl True show ?thesis
        by (subst shift_for_traced.simps, subst shift_for.simps) simp
    next
      case (Inr r)
      obtain g' tr' where r: "r = (g', tr')" by (cases r)
      with Inr have w: "shift_while g i y = Inr g'"
        using shift_while_untraced [of g i y tr] by simp
      show ?thesis
        using True Inr r w "1.IH" [OF True w]
        by (subst shift_for_traced.simps, subst shift_for.simps) simp
    qed
  qed
qed

lemma shiftBlocksDownward_untraced:
  "untraced (shiftBlocksDownward_traced g removed tr) = shiftBlocksDownward g removed"
proof (induction removed arbitrary: g tr)
  case Nil
  then show ?case by simp
next
  case (Cons p removed)
  obtain i j where p: "p = (i, j)" by (cases p)
  show ?case
  proof (cases "shift_for_traced g i (height g - 1) tr")
    case (Inl e)
    then have "shift_for g i (height g - 1) = Inl e"
      using shift_for_untraced [of g i "height g - 1" tr] by simp
    with Inl p show ?thesis by simp
  next
    case (Inr r)
    obtain g' tr' where r: "r = (g', tr')" by (cases r)
    with Inr have "shift_for g i (height g - 1) = Inr g'"
      using shift_for_untraced [of g i "height g - 1" tr] by simp
    with Inr r p Cons.IH show ?thesis by simp
  qed
qed

lemma removeConnectedBlocks_untraced:
  "untraced (removeConnectedBlocks_traced g i j c removed) = removeConnectedBlocks g i j c removed"
proof (cases "rcb_while_traced g c [(i, j)] [] removed 0 []")
  case (Inl e)
  then have "rcb_while g c [(i, j)] [] removed 0 = Inl e"
    using rcb_while_untraced [of g c "[(i, j)]" "[]" removed 0 "[]"] by simp
  with Inl show ?thesis
    by (simp add: removeConnectedBlocks_traced_def removeConnectedBlocks_def)
next
  case (Inr r)
  obtain s tr where r: "r = (s, tr)" by (cases r)
  with Inr have "rcb_while g c [(i, j)] [] removed 0 = Inr s"
    using rcb_while_untraced [of g c "[(i, j)]" "[]" removed 0 "[]"] by simp
  with Inr r show ?thesis
    by (cases s) (simp add: removeConnectedBlocks_traced_def removeConnectedBlocks_def)
qed

lemma blockClicked_untraced:
  "untraced (blockClicked_traced g b) = blockClicked g b"
proof (cases "block_colour b = None")
  case True
  then show ?thesis by (simp add: blockClicked_traced_def blockClicked_def)
next
  case False
  let ?r = "removeConnectedBlocks_traced g (block_x b) (block_y b) (block_colour b) []"
  show ?thesis
  proof (cases ?r)
    case (Inl e)
    then have "removeConnectedBlocks g (block_x b) (block_y b) (block_colour b) [] = Inl e"
      using removeConnectedBlocks_untraced [of g "block_x b" "block_y b" "block_colour b" "[]"]
      by simp
    with Inl False show ?thesis by (simp add: blockClicked_traced_def blockClicked_def)
  next
    case (Inr r)
    obtain g1 removed tr where r: "r = ((g1, removed), tr)" by (cases r) auto
    with Inr have u: "removeConnectedBlocks g (block_x b) (block_y b) (block_colour b) []
        = Inr (g1, removed)"
      using removeConnectedBlocks_untraced [of g "block_x b" "block_y b" "block_colour b" "[]"]
      by simp
    show ?thesis
    proof (cases "shiftBlocksDownward_traced g1 removed tr")
      case (Inl e)
      then have "shiftBlocksDownward g1 removed = Inl e"
        using shiftBlocksDownward_untraced [of g1 removed tr] by simp
      with Inl Inr r u False show ?thesis
        by (simp add: blockClicked_traced_def blockClicked_def)
    next
      case s: (Inr r2)
      obtain g2 tr2 where r2: "r2 = (g2, tr2)" by (cases r2)
      with s have "shiftBlocksDownward g1 removed = Inr g2"
        using shiftBlocksDownward_untraced [of g1 removed tr] by simp
      with s r2 Inr r u False show ?thesis
        by (simp add: blockClicked_traced_def blockClicked_def)
    qed
  qed
qed

lemma rcb_while_trace:
  assumes "rcb_while_traced g c adj parsed removed pops tr = Inr (s, tr')"
    and "width g = width g0" and "height g = height g0"
    and "\<And>i j. withinBoundaries g0 i j \<Longrightarrow> P (Cell i j)"
    and "list_all P tr"
  shows "list_all P tr'"
  using assms(1,2,3,5)
proof (induction g c adj parsed removed pops tr rule: rcb_while_traced.induct)
  case (1 g c parsed removed pops tr)
  then show ?case by simp
next
  case (2 g c row column adj parsed removed pops tr)
  note run = "2.prems"(1) and dims = "2.prems"(2,3) and tr = "2.prems"(4)
  show ?case
  proof (cases "withinBoundaries g row column \<and> (row, column) \<notin> set parsed")
    case False
    with run have "rcb_while_traced g c adj parsed removed (Suc pops) tr = Inr (s, tr')"
      by (subst (asm) rcb_while_traced.simps(2)) auto
    from "2.IH"(3) [OF False this dims tr] show ?thesis .
  next
    case True
    then have "withinBoundaries g0 row column"
      using dims by (simp add: withinBoundaries_def)
    then have cell: "P (Cell row column)" by (rule assms(4))
    from run True obtain matches where chk: "checkBlockColour g row column c = Inr matches"
      by (subst (asm) rcb_while_traced.simps(2)) (auto split: sum.splits)
    show ?thesis
    proof (cases matches)
      case False
      with run True chk have "rcb_while_traced g c adj (parsed @ [(row, column)]) removed
          (Suc pops) (tr @ checkBlockColour_accesses row column) = Inr (s, tr')"
        by (subst (asm) rcb_while_traced.simps(2)) simp
      moreover have "list_all P (tr @ checkBlockColour_accesses row column)"
        using tr cell by (simp add: checkBlockColour_accesses_def)
      ultimately show ?thesis
        using "2.IH"(2) [OF True chk _ _ dims] False by simp
    next
      case m: True
      from run True chk m obtain g' where r: "removeBlock g row column = Inr g'"
        by (subst (asm) rcb_while_traced.simps(2)) (auto split: sum.splits)
      with run True chk m have "rcb_while_traced g' c
            ((row + (-1), column + 0) # (row + 1, column + 0) #
             (row + 0, column + (-1)) # (row + 0, column + 1) # adj)
            (parsed @ [(row, column)]) (removed @ [(row, column)]) (Suc pops)
            (tr @ checkBlockColour_accesses row column @ removeBlock_accesses row column)
          = Inr (s, tr')"
        by (subst (asm) rcb_while_traced.simps(2)) simp
      moreover have "list_all P
          (tr @ checkBlockColour_accesses row column @ removeBlock_accesses row column)"
        using tr cell by (simp add: checkBlockColour_accesses_def removeBlock_accesses_def)
      moreover have "width g' = width g0" "height g' = height g0"
        using removeBlock_dims [OF r] dims by simp_all
      ultimately show ?thesis
        using "2.IH"(1) [OF True chk m r] by simp
    qed
  qed
qed

lemma moveBlockDown_frame:
  assumes "moveBlockDown g i j = Inr g'"
  shows "same_frame g' g"
proof -
  from assms obtain c g1 where "writeColour g i j c = Inr g1"
    "writeColour g1 i (j + 1) None = Inr g'"
    by (auto simp: moveBlockDown_def split: sum.splits)
  then show ?thesis
    using writeColour_coords [of g i j c g1] writeColour_dims [of g i j c g1]
      writeColour_coords [of g1 i "j + 1" None g'] writeColour_dims [of g1 i "j + 1" None g']
    by (simp add: same_frame_def)
qed

lemma shift_while_trace_ok:
  assumes "shift_while_traced g i j tr = Inr (g', tr')"
    and "well_formed g" and "width g = width g0" and "height g = height g0"
    and "0 \<le> i" and "i < width g0" and "0 \<le> j" and "j < height g0"
    and "list_all (access_ok g0) tr"
  shows "list_all (access_ok g0) tr' \<and> same_frame g' g"
  using assms
proof (induction g i j tr rule: shift_while_traced.induct)
  case (1 g i j tr)
  note run = "1.prems"(1) and wf = "1.prems"(2) and dims = "1.prems"(3,4)
    and b = "1.prems"(5-8) and tr = "1.prems"(9)
  from run obtain isEmpty where e: "blockBelowIsEmpty g i j = Inr isEmpty"
    by (subst (asm) shift_while_traced.simps) (auto split: sum.splits)
  have look: "list_all (access_ok g0) (blockBelowIsEmpty_accesses g i j)"
    using b by (simp add: blockBelowIsEmpty_accesses_def withinBoundaries_def)
  show ?case
  proof (cases isEmpty)
    case False
    with run e have "g' = g" "tr' = tr @ blockBelowIsEmpty_accesses g i j"
      by (subst (asm) shift_while_traced.simps, simp)+
    with tr look show ?thesis by (simp add: same_frame_refl)
  next
    case True
    from run e True obtain g1 where m: "moveBlockDown g i j = Inr g1"
      by (subst (asm) shift_while_traced.simps) (auto split: sum.splits)
    with run e True have rec: "shift_while_traced g1 i (j + 1)
        (tr @ blockBelowIsEmpty_accesses g i j @ moveBlockDown_accesses i j) = Inr (g', tr')"
      by (subst (asm) shift_while_traced.simps) simp
    have f1: "same_frame g1 g" using m by (rule moveBlockDown_frame)
    then have wf1: "well_formed g1" and dims1: "width g1 = width g0" "height g1 = height g0"
      using same_frame_wf [OF _ wf, of g1] dims by (simp_all add: same_frame_def)
    have "nat j + 1 < length (grid g ! nat i)"
      using blockBelowIsEmpty_TrueD [of g i j] e True by simp
    moreover have "length (grid g ! nat i) = nat (height g)"
      using wf_grid_lengths(2) [OF wf, of "nat i"] b dims by simp
    ultimately have above: "j + 1 < height g0"
      using dims b by simp
    have "list_all (access_ok g0) (moveBlockDown_accesses i j)"
      using b above by (simp add: moveBlockDown_accesses_def withinBoundaries_def)
    with tr look have "list_all (access_ok g0)
        (tr @ blockBelowIsEmpty_accesses g i j @ moveBlockDown_accesses i j)"
      by simp
    from "1.IH" [OF e True m rec wf1 dims1 b(1,2) _ above this] b
    have "list_all (access_ok g0) tr' \<and> same_frame g' g1" by simp
    with f1 show ?thesis using same_frame_trans by blast
  qed
qed

lemma shift_for_trace_ok:
  assumes "shift_for_traced g i y tr = Inr (g', tr')"
    and "well_formed g" and "width g = width g0" and "height g = height g0"
    and "0 \<le> i" and "i < width g0" and "y < height g0"
    and "list_all (access_ok g0) tr"
  shows "list_all (access_ok g0) tr' \<and> same_frame g' g"
  using assms
proof (induction g i y tr rule: shift_for_traced.induct)
  case (1 g i y tr)
  note run = "1.prems"(1) and wf = "1.prems"(2) and dims = "1.prems"(3,4)
    and b = "1.prems"(5-7) and tr = "1.prems"(8)
  show ?case
  proof (cases "y \<ge> 0")
    case False
    with run have "g' = g" "tr' = tr"
      by (subst (asm) shift_for_traced.simps, simp)+
    with tr show ?thesis by (simp add: same_frame_refl)
  next
    case True
    from run True obtain g1 tr1 where w: "shift_while_traced g i y tr = Inr (g1, tr1)"
      by (subst (asm) shift_for_traced.simps) (auto split: sum.splits)
    with run True have rec: "shift_for_traced g1 i (y - 1) tr1 = Inr (g', tr')"
      by (subst (asm) shift_for_traced.simps) simp
    from shift_while_trace_ok [OF w wf dims b(1,2) True b(3) tr]
    have tr1: "list_all (access_ok g0) tr1" and f1: "same_frame g1 g" by simp_all
    then have wf1: "well_formed g1" and dims1: "width g1 = width g0" "height g1 = height g0"
      using same_frame_wf [OF _ wf, of g1] dims by (simp_all add: same_frame_def)
    from b have "y - 1 < height g0" by simp
    from "1.IH" [OF True w refl rec wf1 dims1 b(1,2) this tr1]
    have "list_all (access_ok g0) tr' \<and> same_frame g' g1" .
    with f1 show ?thesis using same_frame_trans by blast
  qed
qed

lemma shiftBlocksDownward_trace_ok:
  assumes "shiftBlocksDownward_traced g removed tr = Inr (g', tr')"
    and "well_formed g" and "width g = width g0" and "height g = height g0"
    and "\<forall>p \<in> set removed. 0 \<le> fst p \<and> fst p < width g0"
    and "list_all (access_ok g0) tr"
  shows "list_all (access_ok g0) tr' \<and> same_frame g' g"
  using assms
proof (induction removed arbitrary: g tr)
  case Nil
  then show ?case by (simp add: same_frame_refl)
next
  case (Cons p removed)
  obtain i j where p: "p = (i, j)" by (cases p)
  from Cons.prems(1) p obtain g1 tr1 where
    f: "shift_for_traced g i (height g - 1) tr = Inr (g1, tr1)"
    and rec: "shiftBlocksDownward_traced g1 removed tr1 = Inr (g', tr')"
    by (auto split: sum.splits)
  have i: "0 \<le> i" "i < width g0" using Cons.prems(5) p by simp_all
  have "height g - 1 < height g0" using Cons.prems(4) by simp
  from shift_for_trace_ok [OF f Cons.prems(2,3,4) i this Cons.prems(6)]
  have tr1: "list_all (access_ok g0) tr1" and f1: "same_frame g1 g" by simp_all
  then have wf1: "well_formed g1" and dims1: "width g1 = width g0" "height g1 = height g0"
    using same_frame_wf [OF _ Cons.prems(2), of g1] Cons.prems(3,4)
    by (simp_all add: same_frame_def)
  have "\<forall>p \<in> set removed. 0 \<le> fst p \<and> fst p < width g0"
    using Cons.prems(5) by simp
  from Cons.IH [OF rec wf1 dims1 this tr1]
  have "list_all (access_ok g0) tr' \<and> same_frame g' g1" .
  with f1 show ?case using same_frame_trans by blast
qed

lemma resolution_traced:
  assumes "well_formed g"
  shows "\<exists>g1 removed tr1 g2 tr2.
      removeConnectedBlocks_traced g i j c [] = Inr ((g1, removed), tr1)
      \<and> removeConnectedBlocks g i j c [] = Inr (g1, removed)
      \<and> shiftBlocksDownward_traced g1 removed tr1 = Inr (g2, tr2)
      \<and> shiftBlocksDownward g1 removed = Inr g2
      \<and> list_all (access_inside g) tr1 \<and> list_all (access_ok g) tr1
      \<and> list_all (access_ok g) tr2"
proof -
  obtain g1 removed g2 where
    r: "removeConnectedBlocks g i j c [] = Inr (g1, removed)"
    and s: "shiftBlocksDownward g1 removed = Inr g2"
    and f1: "same_frame g1 g"
    and inb: "\<forall>p \<in> set removed. withinBoundaries g (fst p) (snd p)"
    using resolution_total [OF assms, of i j c] by blast
  from r obtain tr1 where t1: "removeConnectedBlocks_traced g i j c [] = Inr ((g1, removed), tr1)"
    using removeConnectedBlocks_untraced [of g i j c "[]"] by (auto simp: untraced_Inr_iff)
  then obtain parsed pops where
    w: "rcb_while_traced g c [(i, j)] [] [] 0 [] = Inr ((g1, removed, parsed, pops), tr1)"
    by (auto simp: removeConnectedBlocks_traced_def split: sum.splits)
  have in1: "list_all (access_inside g) tr1"
    by (rule rcb_while_trace [OF w refl refl]) simp_all
  have ok1: "list_all (access_ok g) tr1"
    by (rule rcb_while_trace [OF w refl refl]) simp_all
  from s obtain tr2 where t2: "shiftBlocksDownward_traced g1 removed tr1 = Inr (g2, tr2)"
    using shiftBlocksDownward_untraced [of g1 removed tr1] by (auto simp: untraced_Inr_iff)
  have wf1: "well_formed g1" and dims1: "width g1 = width g" "height g1 = height g"
    using same_frame_wf [OF f1 assms] f1 by (simp_all add: same_frame_def)
  have "\<forall>p \<in> set removed. 0 \<le> fst p \<and> fst p < width g"
    using inb by (simp add: withinBoundaries_def)
  from shiftBlocksDownward_trace_ok [OF t2 wf1 dims1 this ok1]
  have "list_all (access_ok g) tr2" by simp
  with r s t1 t2 in1 ok1 show ?thesis by blast
qed

lemma slot_above_top_frame:
  assumes "well_formed g" and "same_frame g' g" and "0 \<le> r" and "r < width g"
  shows "slot g' r (height g) = Inr None"
  using slot_above_top [of g' r] same_frame_wf [OF assms(2,1)] assms
  by (simp add: same_frame_def)

section \<open>The properties of the specification\<close>

text \<open>
  C1. On a well-formed grid, let \<open>b\<close> be the block at an in-bounds coordinate
  \<open>(i, j)\<close>, of a colour \<open>s\<close> that is not \<^verbatim>\<open>null\<close>. Clicking it runs the removal
  from \<open>(i, j)\<close> with that colour, and the removal ends with a grid \<open>g1\<close> in which
  exactly the cells of the connected component of colour \<open>s\<close> containing \<open>(i, j)\<close>
  hold \<^verbatim>\<open>null\<close> in place of their colour, every other cell holding the colour it
  had. The removed array lists exactly the cells of that component, each once, and
  every one of them held \<open>s\<close> before the call. The compaction then runs on \<open>g1\<close>
  with that array, and the click ends with the array and the compacted grid.
\<close>

theorem removal_is_component:
  assumes "well_formed g" and "blockAt g i j = Some b" and "block_colour b = Some s"
  shows "\<exists>g1 g2 removed.
      removeConnectedBlocks g (block_x b) (block_y b) (block_colour b) [] = Inr (g1, removed)
    \<and> shiftBlocksDownward g1 removed = Inr g2
    \<and> blockClicked g b = Inr (g2, removed)
    \<and> (block_x b, block_y b) = (i, j)
    \<and> set removed = component g (Some s) (i, j) \<and> distinct removed
    \<and> (\<forall>q. colourAt g1 q = (if q \<in> component g (Some s) (i, j) then Some None else colourAt g q))
    \<and> (\<forall>q \<in> component g (Some s) (i, j). colourAt g q = Some (Some s))"
proof -
  let ?c = "Some s :: colour"
  have xy: "block_x b = i" "block_y b = j"
    using blockAt_coords [OF assms(1,2)] by simp_all
  have seed: "colourAt g (i, j) = Some ?c"
    using assms by (simp add: colourAt_def)
  obtain g1 removed parsed pops where
    r: "rcb_while g ?c [(i, j)] [] [] 0 = Inr (g1, removed, parsed, pops)"
    and inv: "fill_inv g ?c (i, j) g1 [] parsed removed"
    using rcb_while_fill [OF fill_inv_start [OF assms(1)] assms(1) seed, of 0] by auto
  have comp: "set removed = component g ?c (i, j)"
    using fill_inv_final [OF inv seed] .
  have col: "\<forall>q \<in> component g ?c (i, j). colourAt g q = Some ?c"
    by (simp add: component_colour)
  have "\<forall>p \<in> set removed. 0 \<le> fst p \<and> fst p < width g1"
  proof
    fix p assume "p \<in> set removed"
    with comp col have "colourAt g p = Some ?c" by simp
    then have "withinBoundaries g (fst p) (snd p)"
      using colourAt_within [OF assms(1)] by blast
    then show "0 \<le> fst p \<and> fst p < width g1"
      using fill_invD(2) [OF inv] by (simp add: withinBoundaries_def)
  qed
  then obtain g2 where g2: "shiftBlocksDownward g1 removed = Inr g2"
    using shiftBlocksDownward_colours [OF fill_invD(1) [OF inv]] by blast
  have rm: "removeConnectedBlocks g i j ?c [] = Inr (g1, removed)"
    by (simp add: removeConnectedBlocks_def r)
  then have "blockClicked g b = Inr (g2, removed)"
    using assms(3) xy g2 by (simp add: blockClicked_def)
  moreover have "\<forall>q. colourAt g1 q = (if q \<in> component g ?c (i, j) then Some None else colourAt g q)"
    using fill_invD(4) [OF inv] comp by simp
  ultimately show ?thesis
    using rm g2 xy assms(3) comp col fill_invD(5) [OF inv] by auto
qed

text \<open>
  In the example grid the red cells at \<open>(0, 0)\<close>, \<open>(1, 0)\<close> and \<open>(0, 1)\<close> form the
  component of \<open>(0, 0)\<close>; the red cell at \<open>(1, 2)\<close> is cut off by a blue one and
  keeps its colour.
\<close>

theorem removal_is_component_witness:
  "well_formed demo_grid
   \<and> blockAt demo_grid 0 0 = Some \<lparr>block_x = 0, block_y = 0, block_colour = Some ''red''\<rparr>
   \<and> removeConnectedBlocks demo_grid 0 0 (Some ''red'') [] = Inr (demo_removed, [(0, 0), (1, 0), (0, 1)])
   \<and> blockClicked demo_grid \<lparr>block_x = 0, block_y = 0, block_colour = Some ''red''\<rparr>
        = Inr (demo_settled, [(0, 0), (1, 0), (0, 1)])
   \<and> component demo_grid (Some ''red'') (0, 0) = {(0, 0), (1, 0), (0, 1)}
   \<and> colourAt demo_removed (1, 2) = Some (Some ''red'')"
proof -
  let ?b = "\<lparr>block_x = 0, block_y = 0, block_colour = Some ''red''\<rparr>"
  have h: "well_formed demo_grid" "blockAt demo_grid 0 0 = Some ?b"
    by code_simp+
  have e: "removeConnectedBlocks demo_grid 0 0 (Some ''red'') []
      = Inr (demo_removed, [(0, 0), (1, 0), (0, 1)])"
    "blockClicked demo_grid ?b = Inr (demo_settled, [(0, 0), (1, 0), (0, 1)])"
    "colourAt demo_removed (1, 2) = Some (Some ''red'')"
    by code_simp+
  from removal_is_component [OF h, of "''red''"] e
  have "set [(0, 0), (1, 0), (0, 1)] = component demo_grid (Some ''red'') (0, 0)"
    by auto
  then show ?thesis using h e by auto
qed

text \<open>
  C2. On a well-formed grid and for any array of in-bounds coordinates (such as the
  grid and the array the removal leaves), \<^verbatim>\<open>shiftBlocksDownward\<close> returns a grid in
  which every column that holds one of the coordinates is settled: its colours other
  than \<^verbatim>\<open>null\<close> in their order from the bottom, all its \<^verbatim>\<open>null\<close>s on top. Every
  other column is as it was, and so is a column of the array that held nothing but
  \<^verbatim>\<open>null\<close>.
\<close>

theorem compaction_settles_columns:
  assumes "well_formed g" and "\<forall>p \<in> set removed. withinBoundaries g (fst p) (snd p)"
  shows "\<exists>g'. shiftBlocksDownward g removed = Inr g'
     \<and> (\<forall>i. 0 \<le> i \<and> i < width g \<longrightarrow>
          column_of g' i = (if i \<in> fst ` set removed then settle (column_of g i) else column_of g i))
     \<and> (\<forall>i \<in> fst ` set removed. set (column_of g i) \<subseteq> {None} \<longrightarrow> column_of g' i = column_of g i)"
proof -
  have "\<forall>p \<in> set removed. 0 \<le> fst p \<and> fst p < width g"
    using assms(2) by (simp add: withinBoundaries_def)
  then obtain g' where g': "shiftBlocksDownward g removed = Inr g'" "same_frame g' g"
    "colours g' = settle_columns (fst ` set removed) (colours g)"
    using shiftBlocksDownward_colours [OF assms(1)] by blast
  have len: "length (grid g') = length (grid g)" "length (grid g) = nat (width g)"
    using same_frame_lengths [OF g'(2)] wf_grid_lengths(1) [OF assms(1)] by simp_all
  have main: "column_of g' i = (if i \<in> fst ` set removed then settle (column_of g i) else column_of g i)"
    if "0 \<le> i \<and> i < width g" for i
  proof -
    from that len have k: "0 \<le> i" "nat i < length (grid g)" "nat i < length (grid g')"
      by simp_all
    then have "column_of g' i = settle_columns (fst ` set removed) (colours g) ! nat i"
      by (simp add: column_of_colours g'(3))
    also have "\<dots> = (if i \<in> fst ` set removed then settle (colours g ! nat i) else colours g ! nat i)"
      using k by (simp add: settle_columns_def length_colours)
    finally show ?thesis using k by (simp add: column_of_colours)
  qed
  have "column_of g' i = column_of g i"
    if "i \<in> fst ` set removed" "set (column_of g i) \<subseteq> {None}" for i
  proof -
    from that(1) assms(2) have "0 \<le> i \<and> i < width g"
      by (auto simp: withinBoundaries_def)
    from main [OF this] that show ?thesis by (simp add: settle_all_None)
  qed
  with g'(1) main show ?thesis by blast
qed

theorem compaction_settles_columns_witness:
  "well_formed demo_removed
   \<and> list_all (\<lambda>p. withinBoundaries demo_removed (fst p) (snd p)) [(0, 0), (1, 0), (0, 1)]
   \<and> shiftBlocksDownward demo_removed [(0, 0), (1, 0), (0, 1)] = Inr demo_settled
   \<and> column_of demo_removed 0 = [None, None, Some ''green'']
   \<and> column_of demo_settled 0 = settle (column_of demo_removed 0)
   \<and> column_of demo_settled 0 = [Some ''green'', None, None]
   \<and> column_of demo_settled 1 = [Some ''blue'', Some ''red'', None]"
proof -
  have h: "well_formed demo_removed"
    "\<forall>p \<in> set [(0, 0), (1, 0), (0, 1)]. withinBoundaries demo_removed (fst p) (snd p)"
    by code_simp+
  have e: "shiftBlocksDownward demo_removed [(0, 0), (1, 0), (0, 1)] = Inr demo_settled"
    "column_of demo_removed 0 = [None, None, Some ''green'']"
    "column_of demo_settled 0 = [Some ''green'', None, None]"
    "column_of demo_settled 1 = [Some ''blue'', Some ''red'', None]"
    "width demo_removed = 2"
    by code_simp+
  from compaction_settles_columns [OF h] e(1)
  have "\<forall>i. 0 \<le> i \<and> i < width demo_removed \<longrightarrow>
          column_of demo_settled i = (if i \<in> fst ` set [(0, 0), (1, 0), (0::int, 1::int)]
             then settle (column_of demo_removed i) else column_of demo_removed i)"
    by auto
  from this [rule_format, of 0] have "column_of demo_settled 0 = settle (column_of demo_removed 0)"
    by (simp add: e(5))
  then show ?thesis using h e by (simp add: list_all_iff)
qed

text \<open>
  C3. Clicking the block of an in-bounds cell that holds \<^verbatim>\<open>null\<close> raises nothing,
  returns the grid as it was and removes no coordinate.
\<close>

theorem click_on_empty_cell:
  assumes "withinBoundaries g i j" and "blockAt g i j = Some b" and "block_colour b = None"
  shows "blockClicked g b = Inr (g, [])"
  using assms(3) by (rule blockClicked_empty)

theorem click_on_empty_cell_witness:
  "withinBoundaries demo_removed 0 1
   \<and> blockAt demo_removed 0 1 = Some \<lparr>block_x = 0, block_y = 1, block_colour = None\<rparr>
   \<and> blockClicked demo_removed \<lparr>block_x = 0, block_y = 1, block_colour = None\<rparr>
        = Inr (demo_removed, [])"
proof -
  let ?b = "\<lparr>block_x = 0, block_y = 1, block_colour = None\<rparr>"
  have h: "withinBoundaries demo_removed 0 1" "blockAt demo_removed 0 1 = Some ?b"
    "block_colour ?b = None"
    by code_simp+
  from click_on_empty_cell [OF h] h show ?thesis by simp
qed

text \<open>
  C4. On a well-formed grid, at a coordinate outside the boundaries, the method that
  reads a cell's colour (\<^verbatim>\<open>checkBlockColour\<close>) and the method that overwrites it
  (\<^verbatim>\<open>removeBlock\<close>) both fail: they raise the \<^verbatim>\<open>TypeError\<close> of a property access
  on \<^verbatim>\<open>undefined\<close>, whatever the colour compared with. That exception is the
  out-of-bounds condition of this code, which has no check of its own.
\<close>

theorem accessors_out_of_bounds:
  assumes "well_formed g" and "\<not> withinBoundaries g i j"
  shows "checkBlockColour g i j c = Inl TypeError \<and> removeBlock g i j = Inl TypeError"
proof -
  have "colourAt g (i, j) = None"
    using colourAt_defined_iff [OF assms(1), of i j] assms(2) by simp
  then show ?thesis
    by (simp add: checkBlockColour_colourAt removeBlock_def writeColour_undefined)
qed

theorem accessors_out_of_bounds_witness:
  "well_formed demo_grid \<and> \<not> withinBoundaries demo_grid 2 0
   \<and> \<not> withinBoundaries demo_grid 0 3 \<and> \<not> withinBoundaries demo_grid (- 1) 0
   \<and> checkBlockColour demo_grid 2 0 (Some ''red'') = Inl TypeError
   \<and> removeBlock demo_grid 2 0 = Inl TypeError
   \<and> checkBlockColour demo_grid 0 3 None = Inl TypeError
   \<and> removeBlock demo_grid (- 1) 0 = Inl TypeError"
proof -
  have h: "well_formed demo_grid" "\<not> withinBoundaries demo_grid 2 0"
    "\<not> withinBoundaries demo_grid 0 3" "\<not> withinBoundaries demo_grid (- 1) 0"
    by code_simp+
  show ?thesis
    using h accessors_out_of_bounds [OF h(1,2), of "Some ''red''"]
      accessors_out_of_bounds [OF h(1,3), of None]
      accessors_out_of_bounds [OF h(1,4), of None]
    by simp
qed

text \<open>
  C5. On a well-formed grid, for any seed (inside the boundaries or not) and any
  colour, the loop of \<^verbatim>\<open>removeConnectedBlocks\<close> ends without an exception. No key is
  added to \<^verbatim>\<open>parsedBlocks\<close> twice (the list of the arguments of \<^verbatim>\<open>add\<close> has no
  repetition), so at most \<^verbatim>\<open>width * height\<close> cells are visited; and the loop runs
  exactly four iterations for each removed cell and one more, so at most
  \<^verbatim>\<open>4 * width * height + 1\<close> times.
\<close>

theorem traversal_terminates_bounded:
  assumes "well_formed g"
  shows "\<exists>g' removed parsed pops.
      rcb_while g c [(i, j)] [] [] 0 = Inr (g', removed, parsed, pops)
      \<and> distinct parsed
      \<and> length parsed \<le> nat (width g) * nat (height g)
      \<and> pops = 4 * length removed + 1
      \<and> pops \<le> 4 * (nat (width g) * nat (height g)) + 1"
proof -
  obtain g' removed parsed pops where
    r: "rcb_while g c [(i, j)] [] [] 0 = Inr (g', removed, parsed, pops)"
    and inv: "count_inv g g' [] parsed removed pops"
    using traversal_total [OF assms] by blast
  note f = count_inv_final [OF inv]
  from f have "pops \<le> 4 * (nat (width g) * nat (height g)) + 1"
    by simp
  moreover from inv have "distinct parsed" by (simp add: count_inv_def)
  ultimately show ?thesis using r f by blast
qed

theorem traversal_terminates_bounded_witness:
  "well_formed demo_grid
   \<and> rcb_while demo_grid (Some ''red'') [(0, 0)] [] [] 0
       = Inr (demo_removed, [(0, 0), (1, 0), (0, 1)], [(0, 0), (1, 0), (1, 1), (0, 1), (0, 2)], 13)
   \<and> length [(0, 0), (1, 0), (1, 1), (0, 1), (0::int, 2::int)] \<le> nat (width demo_grid) * nat (height demo_grid)
   \<and> (13::nat) \<le> 4 * (nat (width demo_grid) * nat (height demo_grid)) + 1"
proof -
  have h: "well_formed demo_grid" by code_simp
  have e: "rcb_while demo_grid (Some ''red'') [(0, 0)] [] [] 0
       = Inr (demo_removed, [(0, 0), (1, 0), (0, 1)], [(0, 0), (1, 0), (1, 1), (0, 1), (0, 2)], 13)"
    by code_simp
  from traversal_terminates_bounded [OF h, of "Some ''red''" 0 0] e
  show ?thesis using h by simp
qed

text \<open>
  C6. On a well-formed grid nothing in a resolution raises: the removal started at
  any seed with any colour returns, the compaction of what it returns returns, and so
  does a click on any block. The log of the indexes into \<^verbatim>\<open>this.grid\<close> that they
  evaluate is as follows. The traversal indexes only cells inside the boundaries: it
  reads and writes a colour only after \<^verbatim>\<open>withinBoundaries\<close> has accepted the
  coordinate. The compaction reads and writes the colours of cells inside the
  boundaries only, and besides evaluates the bare slot \<^verbatim>\<open>this.grid[x][y + 1]\<close> of
  \<^verbatim>\<open>blockBelowIsEmpty\<close>, in a column of the grid and at a row from 1 to
  \<^verbatim>\<open>height\<close>. At the row \<^verbatim>\<open>height\<close> that index is outside the boundaries: the slot
  is \<^verbatim>\<open>undefined\<close>, no property of it is taken, and the inner loop ends there. So
  every colour read or written is that of a cell inside the boundaries, but not every
  index into the storage is inside them.
\<close>

theorem resolution_accesses:
  assumes "well_formed g"
  shows "(\<exists>g1 removed tr1 g2 tr2.
            removeConnectedBlocks_traced g i j c [] = Inr ((g1, removed), tr1)
            \<and> removeConnectedBlocks g i j c [] = Inr (g1, removed)
            \<and> shiftBlocksDownward_traced g1 removed tr1 = Inr (g2, tr2)
            \<and> shiftBlocksDownward g1 removed = Inr g2
            \<and> (\<forall>a \<in> set tr1. access_inside g a)
            \<and> (\<forall>a \<in> set tr2. access_ok g a))
     \<and> (\<exists>g' removed tr.
            blockClicked_traced g b = Inr ((g', removed), tr)
            \<and> blockClicked g b = Inr (g', removed)
            \<and> (\<forall>a \<in> set tr. access_ok g a))
     \<and> (\<forall>g' r. same_frame g' g \<and> 0 \<le> r \<and> r < width g \<longrightarrow>
            slot g' r (height g) = Inr None)"
proof -
  have 1: "\<exists>g1 removed tr1 g2 tr2.
            removeConnectedBlocks_traced g i j c [] = Inr ((g1, removed), tr1)
            \<and> removeConnectedBlocks g i j c [] = Inr (g1, removed)
            \<and> shiftBlocksDownward_traced g1 removed tr1 = Inr (g2, tr2)
            \<and> shiftBlocksDownward g1 removed = Inr g2
            \<and> (\<forall>a \<in> set tr1. access_inside g a)
            \<and> (\<forall>a \<in> set tr2. access_ok g a)"
    using resolution_traced [OF assms, of i j c] by (simp add: list_all_iff) blast
  have 2: "\<exists>g' removed tr.
            blockClicked_traced g b = Inr ((g', removed), tr)
            \<and> blockClicked g b = Inr (g', removed)
            \<and> (\<forall>a \<in> set tr. access_ok g a)"
  proof (cases "block_colour b = None")
    case True
    then show ?thesis by (simp add: blockClicked_traced_def blockClicked_def)
  next
    case False
    obtain g1 removed tr1 g2 tr2 where
      "removeConnectedBlocks_traced g (block_x b) (block_y b) (block_colour b) []
         = Inr ((g1, removed), tr1)"
      "removeConnectedBlocks g (block_x b) (block_y b) (block_colour b) [] = Inr (g1, removed)"
      "shiftBlocksDownward_traced g1 removed tr1 = Inr (g2, tr2)"
      "shiftBlocksDownward g1 removed = Inr g2"
      "list_all (access_ok g) tr2"
      using resolution_traced [OF assms, of "block_x b" "block_y b" "block_colour b"] by blast
    with False show ?thesis
      by (simp add: blockClicked_traced_def blockClicked_def list_all_iff)
  qed
  have 3: "slot g' r (height g) = Inr None"
    if "same_frame g' g \<and> 0 \<le> r \<and> r < width g" for g' r
    using slot_above_top_frame [OF assms, of g' r] that by simp
  from 1 2 3 show ?thesis by blast
qed

text \<open>
  In the example grid the click moves blocks down in both columns; its log holds the
  slots \<open>(0, 3)\<close> and \<open>(1, 3)\<close> above the top row, and every colour it reads or
  writes is inside the boundaries.
\<close>

theorem resolution_accesses_witness:
  "well_formed demo_grid
   \<and> blockClicked_traced demo_grid \<lparr>block_x = 0, block_y = 0, block_colour = Some ''red''\<rparr>
        = Inr ((demo_settled, [(0, 0), (1, 0), (0, 1)]), demo_accesses)
   \<and> blockClicked demo_grid \<lparr>block_x = 0, block_y = 0, block_colour = Some ''red''\<rparr>
        = Inr (demo_settled, [(0, 0), (1, 0), (0, 1)])
   \<and> list_all (access_ok demo_grid) demo_accesses
   \<and> slot demo_removed 0 3 = Inr None"
proof -
  let ?b = "\<lparr>block_x = 0, block_y = 0, block_colour = Some ''red''\<rparr>"
  have h: "well_formed demo_grid" by code_simp
  have e: "blockClicked_traced demo_grid ?b
        = Inr ((demo_settled, [(0, 0), (1, 0), (0, 1)]), demo_accesses)"
    "same_frame demo_removed demo_grid" "width demo_grid = 2" "height demo_grid = 3"
    by code_simp+
  from resolution_accesses [OF h, of 0 0 None ?b] e(1)
  have c: "blockClicked demo_grid ?b = Inr (demo_settled, [(0, 0), (1, 0), (0, 1)])"
    "\<forall>a \<in> set demo_accesses. access_ok demo_grid a"
    by auto
  from resolution_accesses [OF h, of 0 0 None ?b]
  have "\<forall>g' r. same_frame g' demo_grid \<and> 0 \<le> r \<and> r < width demo_grid \<longrightarrow>
            slot g' r (height demo_grid) = Inr None"
    by blast
  from this [rule_format, of demo_removed 0] have "slot demo_removed 0 3 = Inr None"
    by (simp add: e)
  with h e c show ?thesis by (simp add: list_all_iff)
qed

text \<open>
  The index above the top row is evaluated in every resolution that removes a block.
  In the grid of a single cell, of height 1, the log of the click ends with the slot
  \<open>(0, 1)\<close>; in the example grid, of height 3, it holds the slot \<open>(0, 3)\<close>. Neither
  is inside the boundaries, so the indexes of a resolution are not all inside them.
\<close>

theorem resolution_indexes_above_top:
  "blockClicked_traced (single_grid (Some ''red''))
       \<lparr>block_x = 0, block_y = 0, block_colour = Some ''red''\<rparr>
     = Inr ((single_grid None, [(0, 0)]), [Cell 0 0, Cell 0 0, Cell 0 0, Slot 0 1])
   \<and> \<not> access_inside (single_grid (Some ''red'')) (Slot 0 1)
   \<and> Slot 0 3 \<in> set (trace_of (blockClicked_traced demo_grid
         \<lparr>block_x = 0, block_y = 0, block_colour = Some ''red''\<rparr>))
   \<and> \<not> access_inside demo_grid (Slot 0 3)
   \<and> \<not> list_all (access_inside demo_grid) (trace_of (blockClicked_traced demo_grid
         \<lparr>block_x = 0, block_y = 0, block_colour = Some ''red''\<rparr>))"
  by code_simp

text \<open>
  C7. For positive integers \<open>w\<close> and \<open>h\<close> the constructor builds a grid of
  dimensions \<open>w\<close> and \<open>h\<close> with exactly \<open>w\<close> columns of exactly \<open>h\<close> blocks each,
  the block at \<^verbatim>\<open>grid[i][j]\<close> carrying the coordinates \<open>(i, j)\<close>; with both
  arguments omitted it builds the grid of dimensions 10 and 10. That a block stores
  the coordinates it is created with is taken from the specification, the \<^verbatim>\<open>Block\<close>
  class being absent.
\<close>

theorem constructor_shape:
  assumes "0 < w" and "0 < h"
  shows "width (new_BlockGrid policy (Some w) (Some h)) = w
    \<and> height (new_BlockGrid policy (Some w) (Some h)) = h
    \<and> length (grid (new_BlockGrid policy (Some w) (Some h))) = nat w
    \<and> (\<forall>column \<in> set (grid (new_BlockGrid policy (Some w) (Some h))). length column = nat h)
    \<and> (\<forall>i j. 0 \<le> i \<and> i < w \<and> 0 \<le> j \<and> j < h \<longrightarrow>
          (\<exists>b. blockAt (new_BlockGrid policy (Some w) (Some h)) i j = Some b
             \<and> block_x b = i \<and> block_y b = j))
    \<and> new_BlockGrid policy None None = new_BlockGrid policy (Some 10) (Some 10)"
proof -
  let ?g = "new_BlockGrid policy (Some w) (Some h)"
  have "\<forall>column \<in> set (grid ?g). length column = nat h"
    by (auto simp: new_BlockGrid_grid)
  moreover have "\<exists>b. blockAt ?g i j = Some b \<and> block_x b = i \<and> block_y b = j"
    if "0 \<le> i \<and> i < w \<and> 0 \<le> j \<and> j < h" for i j
    using that new_BlockGrid_blockAt [of i w j h policy] by (simp add: newBlock_def)
  ultimately show ?thesis
    by (simp add: new_BlockGrid_grid new_BlockGrid_default [unfolded new_BlockGrid_grid])
qed

theorem constructor_shape_witness:
  "(0::int) < 3 \<and> (0::int) < 5
    \<and> length (grid (new_BlockGrid uniform (Some 3) (Some 5))) = 3
    \<and> map length (grid (new_BlockGrid uniform (Some 3) (Some 5))) = [5, 5, 5]
    \<and> blockAt (new_BlockGrid uniform (Some 3) (Some 5)) 2 4
         = Some \<lparr>block_x = 2, block_y = 4, block_colour = Some ''red''\<rparr>
    \<and> length (grid (new_BlockGrid uniform None None)) = 10"
proof -
  have h: "(0::int) < 3" "(0::int) < 5" by simp_all
  have c: "length (grid (new_BlockGrid uniform (Some 3) (Some 5))) = nat 3"
    "\<forall>column \<in> set (grid (new_BlockGrid uniform (Some 3) (Some 5))). length column = nat 5"
    "new_BlockGrid uniform None None = new_BlockGrid uniform (Some 10) (Some 10)"
    using constructor_shape [OF h, of uniform] by blast+
  have "map length (grid (new_BlockGrid uniform (Some 3) (Some 5))) = [5, 5, 5]"
    by code_simp
  moreover have "blockAt (new_BlockGrid uniform (Some 3) (Some 5)) 2 4
         = Some \<lparr>block_x = 2, block_y = 4, block_colour = Some ''red''\<rparr>"
    by code_simp
  moreover have "length (grid (new_BlockGrid uniform None None)) = 10"
    using constructor_shape [of 10 10 uniform] c(3) by simp
  ultimately show ?thesis using c by simp
qed

text \<open>
  C8. A click on any block of a well-formed grid returns a grid with the same width
  and height and with the same coordinates stored at the same places of the same
  columns, again well-formed: no column or block is added, removed or moved, and the
  colour is the only field that may differ.
\<close>

theorem resolution_preserves_frame:
  assumes "well_formed g"
  shows "\<exists>g' removed. blockClicked g b = Inr (g', removed)
     \<and> width g' = width g \<and> height g' = height g
     \<and> coords g' = coords g \<and> well_formed g'"
proof -
  obtain g' removed where "blockClicked g b = Inr (g', removed)" "same_frame g' g"
    using blockClicked_total [OF assms, of b] by blast
  then show ?thesis
    using same_frame_wf [OF _ assms] by (auto simp: same_frame_def)
qed

theorem resolution_preserves_frame_witness:
  "well_formed demo_grid
   \<and> blockClicked demo_grid \<lparr>block_x = 0, block_y = 0, block_colour = Some ''red''\<rparr>
        = Inr (demo_settled, [(0, 0), (1, 0), (0, 1)])
   \<and> width demo_settled = width demo_grid \<and> height demo_settled = height demo_grid
   \<and> coords demo_settled = coords demo_grid
   \<and> coords demo_grid = [[(0, 0), (0, 1), (0, 2)], [(1, 0), (1, 1), (1, 2)]]"
proof -
  let ?b = "\<lparr>block_x = 0, block_y = 0, block_colour = Some ''red''\<rparr>"
  have h: "well_formed demo_grid" by code_simp
  have e: "blockClicked demo_grid ?b = Inr (demo_settled, [(0, 0), (1, 0), (0, 1)])"
    "coords demo_grid = [[(0, 0), (0, 1), (0, 2)], [(1, 0), (1, 1), (1, 2)]]"
    by code_simp+
  from resolution_preserves_frame [OF h, of ?b] e h show ?thesis by auto
qed

text \<open>
  C9. If a click on the block at \<open>(i, j)\<close> has returned a grid in which the cell at
  \<open>(i, j)\<close> holds \<^verbatim>\<open>null\<close>, a second click on that cell returns the same grid and
  removes no coordinate.
\<close>

theorem second_click_is_noop:
  assumes "blockAt g i j = Some b" and "blockClicked g b = Inr (g1, removed1)"
    and "blockAt g1 i j = Some b1" and "block_colour b1 = None"
  shows "blockClicked g1 b1 = Inr (g1, [])"
  using assms(4) by (rule blockClicked_empty)

theorem second_click_is_noop_witness:
  "blockAt (single_grid (Some ''red'')) 0 0 = Some \<lparr>block_x = 0, block_y = 0, block_colour = Some ''red''\<rparr>
   \<and> blockClicked (single_grid (Some ''red'')) \<lparr>block_x = 0, block_y = 0, block_colour = Some ''red''\<rparr>
        = Inr (single_grid None, [(0, 0)])
   \<and> blockAt (single_grid None) 0 0 = Some \<lparr>block_x = 0, block_y = 0, block_colour = None\<rparr>
   \<and> blockClicked (single_grid None) \<lparr>block_x = 0, block_y = 0, block_colour = None\<rparr>
        = Inr (single_grid None, [])"
proof -
  let ?b = "\<lparr>block_x = 0, block_y = 0, block_colour = Some ''red''\<rparr>"
  let ?b1 = "\<lparr>block_x = 0, block_y = 0, block_colour = None\<rparr>"
  have h: "blockAt (single_grid (Some ''red'')) 0 0 = Some ?b"
    "blockClicked (single_grid (Some ''red'')) ?b = Inr (single_grid None, [(0, 0)])"
    "blockAt (single_grid None) 0 0 = Some ?b1"
    "block_colour ?b1 = None"
    by code_simp+
  from second_click_is_noop [OF h] h show ?thesis by simp
qed

text \<open>
  C10. With a seed outside the boundaries and any colour, the removal ends after a
  single iteration that discards the seed: the grid is returned as it was, no key is
  parsed, and the removed array stays empty. No assumption on the grid is needed.
\<close>

theorem out_of_bounds_seed_is_noop:
  assumes "\<not> withinBoundaries g i j"
  shows "rcb_while g c [(i, j)] [] [] 0 = Inr (g, [], [], 1)
     \<and> removeConnectedBlocks g i j c [] = Inr (g, [])"
proof -
  have "rcb_while g c [(i, j)] [] [] 0 = rcb_while g c [] [] [] (Suc 0)"
    using assms by (subst rcb_while.simps(2)) simp
  then show ?thesis by (simp add: removeConnectedBlocks_def)
qed

theorem out_of_bounds_seed_is_noop_witness:
  "\<not> withinBoundaries demo_grid 2 1
   \<and> rcb_while demo_grid (Some ''red'') [(2, 1)] [] [] 0 = Inr (demo_grid, [], [], 1)
   \<and> removeConnectedBlocks demo_grid 2 1 (Some ''red'') [] = Inr (demo_grid, [])"
proof -
  have h: "\<not> withinBoundaries demo_grid 2 1" by code_simp
  from out_of_bounds_seed_is_noop [OF h, of "Some ''red''"] h show ?thesis by simp
qed

end
